theory Spec2Isabelle
  imports Complex_Main "HOL-Library.Word" "HOL-Library.Stream"
begin

section \<open>The bassline generator of genetic.ino\<close>

text \<open>
  The sketch keeps a population of 100 genomes of 64 steps, scores each genome against a
  chord progression and a table of preferences, plays the best one step by step, and
  mutates or re-randomizes the population when the step counter wraps.

  A \<open>byte\<close> is an unsigned 8-bit value. The sketch computes every score in \<open>int\<close>
  after the usual promotion of its \<open>byte\<close> operands; the model reads a byte with
  \<open>uint\<close> and computes in \<open>int\<close>. Lemma \<open>evaluateGenome_loop_bounds\<close> below shows
  that for in-domain genomes every partial score stays between \<open>-3840\<close> and \<open>16320\<close>,
  inside the 16-bit \<open>int\<close> of the AVR targets, so no wrap-around is left out.
\<close>

subsection \<open>Constants and data\<close>

type_synonym byte = "8 word"

definition NUM_STEPS :: nat where
  "NUM_STEPS = 64"

definition NUM_NOTES :: nat where
  "NUM_NOTES = 12"

definition POP_SIZE :: nat where
  "POP_SIZE = 100"

text \<open>
  \<open>const float MUT_RATE = 0.01\<close>. The only use is the test \<open>random(100) < MUT_RATE * 100\<close>
  on an integer draw between 0 and 99. Whether the float product is exactly 1 or a value
  just below 1, the test holds for the draw 0 and for no other draw, as it does with the
  exact rate \<open>1 / 100\<close> used here.
\<close>

definition MUT_RATE :: real where
  "MUT_RATE = 1 / 100"

text \<open>\<open>struct Genome\<close>: four arrays of \<open>NUM_STEPS\<close> bytes.\<close>

record Genome =
  g_note :: "byte list"
  g_octave :: "byte list"
  g_waveform :: "byte list"
  g_gate :: "byte list"

text \<open>The arrays of a genome have the fixed length 64 (the C++ type says so).\<close>

definition wf_genome :: "Genome \<Rightarrow> bool" where
  "wf_genome g \<longleftrightarrow>
     length (g_note g) = NUM_STEPS \<and> length (g_octave g) = NUM_STEPS \<and>
     length (g_waveform g) = NUM_STEPS \<and> length (g_gate g) = NUM_STEPS"

text \<open>The domains written beside the fields: note 0-11, octave 0-3, waveform 0-3, gate 0-1.\<close>

definition in_domain :: "Genome \<Rightarrow> bool" where
  "in_domain g \<longleftrightarrow>
     list_all (\<lambda>b. unat b < 12) (g_note g) \<and> list_all (\<lambda>b. unat b < 4) (g_octave g) \<and>
     list_all (\<lambda>b. unat b < 4) (g_waveform g) \<and> list_all (\<lambda>b. unat b < 2) (g_gate g)"

text \<open>\<open>Genome population[POP_SIZE]\<close>: 100 genomes, each well formed.\<close>

definition wf_population :: "Genome list \<Rightarrow> bool" where
  "wf_population pop \<longleftrightarrow> length pop = POP_SIZE \<and> list_all wf_genome pop"

text \<open>
  \<open>const byte JAZZ_TABLE[7][7]\<close>. The element type is \<open>byte\<close>, so the initializers
  \<open>-5\<close> and \<open>-10\<close> are stored as the bytes 251 and 246; on the 8-bit words of the model
  \<open>- 5\<close> and \<open>- 10\<close> are these very values.
\<close>

definition JAZZ_TABLE :: "byte list list" where
  "JAZZ_TABLE =
    [[10, 0, 7, 0, 5, 0, 3],
     [10, 0, 5, 0, 7, 0, 3],
     [10, 0, 7, 0, 5, - 5, - 10],
     [10, - 5, - 10, - 5, - 10, - 5, - 10],
     [10, - 5, - 10, - 5, - 10, - 5, - 10],
     [10, - 5, - 10, - 5, - 10, - 5, - 10],
     [10, - 5, - 10, - 5, - 10, - 5, - 10]]"

text \<open>
  The read \<open>JAZZ_TABLE[chord_type][scale_degree]\<close> as the sketch performs it. The 49
  bytes of the table lie row after row, and the element is the byte at the offset
  \<open>chord_type * 7 + scale_degree\<close>: there is no check and no failure path. With a chord
  type of at most 2 and a scale degree below 12 the offset is at most 25, inside the
  table, so a column index of 7 or more reads a byte of a later row.
\<close>

definition JAZZ_TABLE_read :: "nat \<Rightarrow> nat \<Rightarrow> byte" where
  "JAZZ_TABLE_read chord_type scale_degree =
     concat JAZZ_TABLE ! (chord_type * 7 + scale_degree)"

text \<open>
  The same read with the bounds of the declaration \<open>[7][7]\<close> checked: \<open>None\<close> marks an
  index outside the row, to which C++ gives no meaning.
\<close>

definition JAZZ_TABLE_at :: "nat \<Rightarrow> nat \<Rightarrow> byte option" where
  "JAZZ_TABLE_at chord_type scale_degree =
     (if chord_type < 7 \<and> scale_degree < 7
      then Some (JAZZ_TABLE ! chord_type ! scale_degree) else None)"

definition CHORD_PROGRESSION :: "byte list list" where
  "CHORD_PROGRESSION = [[0, 0], [1, 9], [2, 7], [1, 2]]"

subsection \<open>The random numbers\<close>

text \<open>
  \<open>random(howbig)\<close> is Arduino's: 0 when \<open>howbig\<close> is 0, and otherwise the next output
  of the generator of the C library, which is not negative, reduced \<open>% howbig\<close>. The
  generator is a parameter of the model: the stream of its outputs.
\<close>

definition random :: "nat \<Rightarrow> nat stream \<Rightarrow> nat \<times> nat stream" where
  "random howbig s = (if howbig = 0 then (0, s) else (shd s mod howbig, stl s))"

subsection \<open>initPopulation\<close>

text \<open>The body of the inner loop: the four assignments at step \<open>j\<close>.\<close>

definition init_step :: "nat \<Rightarrow> Genome \<Rightarrow> nat stream \<Rightarrow> Genome \<times> nat stream" where
  "init_step j g s0 =
     (let (v1, s1) = random NUM_NOTES s0;
          g1 = g\<lparr>g_note := (g_note g)[j := of_nat v1]\<rparr>;
          (v2, s2) = random 4 s1;
          g2 = g1\<lparr>g_octave := (g_octave g1)[j := of_nat v2]\<rparr>;
          (v3, s3) = random 4 s2;
          g3 = g2\<lparr>g_waveform := (g_waveform g2)[j := of_nat v3]\<rparr>;
          (v4, s4) = random 2 s3;
          g4 = g3\<lparr>g_gate := (g_gate g3)[j := of_nat v4]\<rparr>
      in (g4, s4))"

function init_steps :: "nat \<Rightarrow> Genome \<Rightarrow> nat stream \<Rightarrow> Genome \<times> nat stream" where
  "init_steps j g s =
     (if j < NUM_STEPS
      then (case init_step j g s of (g', s') \<Rightarrow> init_steps (j + 1) g' s')
      else (g, s))"
  by pat_completeness auto
termination
  by (relation "measure (\<lambda>(j, g, s). NUM_STEPS - j)") auto

function initPopulation_loop ::
  "nat \<Rightarrow> Genome list \<Rightarrow> nat stream \<Rightarrow> Genome list \<times> nat stream" where
  "initPopulation_loop i pop s =
     (if i < POP_SIZE
      then (case init_steps 0 (pop ! i) s of
              (g, s') \<Rightarrow> initPopulation_loop (i + 1) (pop[i := g]) s')
      else (pop, s))"
  by pat_completeness auto
termination
  by (relation "measure (\<lambda>(i, pop, s). POP_SIZE - i)") auto

subsection \<open>mutatePopulation\<close>

text \<open>
  The body of the inner loop is four \<open>if\<close> statements, one for each field: a test
  \<open>random(100) < MUT_RATE * 100\<close> and, when it passes, the assignment of a new random
  value at step \<open>j\<close>. The rate is a parameter here; the sketch runs it at \<open>MUT_RATE\<close>.
\<close>

definition mutate_note ::
  "real \<Rightarrow> nat \<Rightarrow> Genome \<Rightarrow> nat stream \<Rightarrow> Genome \<times> nat stream" where
  "mutate_note rate j g s0 =
     (case random 100 s0 of
        (r, s1) \<Rightarrow>
          if real r < rate * 100
          then (case random NUM_NOTES s1 of
                  (v, s2) \<Rightarrow> (g\<lparr>g_note := (g_note g)[j := of_nat v]\<rparr>, s2))
          else (g, s1))"

definition mutate_octave ::
  "real \<Rightarrow> nat \<Rightarrow> Genome \<Rightarrow> nat stream \<Rightarrow> Genome \<times> nat stream" where
  "mutate_octave rate j g s0 =
     (case random 100 s0 of
        (r, s1) \<Rightarrow>
          if real r < rate * 100
          then (case random 4 s1 of
                  (v, s2) \<Rightarrow> (g\<lparr>g_octave := (g_octave g)[j := of_nat v]\<rparr>, s2))
          else (g, s1))"

definition mutate_waveform ::
  "real \<Rightarrow> nat \<Rightarrow> Genome \<Rightarrow> nat stream \<Rightarrow> Genome \<times> nat stream" where
  "mutate_waveform rate j g s0 =
     (case random 100 s0 of
        (r, s1) \<Rightarrow>
          if real r < rate * 100
          then (case random 4 s1 of
                  (v, s2) \<Rightarrow> (g\<lparr>g_waveform := (g_waveform g)[j := of_nat v]\<rparr>, s2))
          else (g, s1))"

definition mutate_gate ::
  "real \<Rightarrow> nat \<Rightarrow> Genome \<Rightarrow> nat stream \<Rightarrow> Genome \<times> nat stream" where
  "mutate_gate rate j g s0 =
     (case random 100 s0 of
        (r, s1) \<Rightarrow>
          if real r < rate * 100
          then (case random 2 s1 of
                  (v, s2) \<Rightarrow> (g\<lparr>g_gate := (g_gate g)[j := of_nat v]\<rparr>, s2))
          else (g, s1))"

definition mutate_step ::
  "real \<Rightarrow> nat \<Rightarrow> Genome \<Rightarrow> nat stream \<Rightarrow> Genome \<times> nat stream" where
  "mutate_step rate j g s0 =
     (case mutate_note rate j g s0 of
        (g1, s1) \<Rightarrow>
          (case mutate_octave rate j g1 s1 of
             (g2, s2) \<Rightarrow>
               (case mutate_waveform rate j g2 s2 of
                  (g3, s3) \<Rightarrow> mutate_gate rate j g3 s3)))"

function mutate_steps ::
  "real \<Rightarrow> nat \<Rightarrow> Genome \<Rightarrow> nat stream \<Rightarrow> Genome \<times> nat stream" where
  "mutate_steps rate j g s =
     (if j < NUM_STEPS
      then (case mutate_step rate j g s of (g', s') \<Rightarrow> mutate_steps rate (j + 1) g' s')
      else (g, s))"
  by pat_completeness auto
termination
  by (relation "measure (\<lambda>(rate, j, g, s). NUM_STEPS - j)") auto

function mutatePopulation_loop ::
  "real \<Rightarrow> nat \<Rightarrow> Genome list \<Rightarrow> nat stream \<Rightarrow> Genome list \<times> nat stream" where
  "mutatePopulation_loop rate i pop s =
     (if i < POP_SIZE
      then (case mutate_steps rate 0 (pop ! i) s of
              (g, s') \<Rightarrow> mutatePopulation_loop rate (i + 1) (pop[i := g]) s')
      else (pop, s))"
  by pat_completeness auto
termination
  by (relation "measure (\<lambda>(rate, i, pop, s). POP_SIZE - i)") auto

subsection \<open>evaluateGenome\<close>

text \<open>
  The two indices of the table that step \<open>i\<close> computes. The operand of \<open>%\<close> is never
  negative (a byte minus a root of at most 9, plus 12), so the truncating \<open>%\<close> of C++
  and \<open>mod\<close> agree on it. The reads of the genome and of \<open>CHORD_PROGRESSION\<close> are in
  range for \<open>i < 64\<close>.
\<close>

definition table_index :: "Genome \<Rightarrow> nat \<Rightarrow> nat \<times> nat" where
  "table_index genome i =
     (let note = g_note genome ! i;
          chord_type = CHORD_PROGRESSION ! (i div (NUM_STEPS div 4)) ! 0;
          chord_root = CHORD_PROGRESSION ! (i div (NUM_STEPS div 4)) ! 1;
          scale_degree = (word_of_int ((uint note - uint chord_root + int NUM_NOTES)
                                        mod int NUM_NOTES) :: byte)
      in (unat chord_type, unat scale_degree))"

text \<open>The lookup of step \<open>i\<close> with the bounds of the table checked.\<close>

definition lookup_checked :: "Genome \<Rightarrow> nat \<Rightarrow> byte option" where
  "lookup_checked genome i =
     (case table_index genome i of
        (chord_type, scale_degree) \<Rightarrow> JAZZ_TABLE_at chord_type scale_degree)"

text \<open>The body of the loop at step \<open>i\<close>, from the score so far to the new score.\<close>

definition score_step :: "Genome \<Rightarrow> nat \<Rightarrow> int \<Rightarrow> int" where
  "score_step genome i score =
     (let note = g_note genome ! i;
          octave = g_octave genome ! i;
          waveform = g_waveform genome ! i;
          gate = g_gate genome ! i;
          (chord_type, scale_degree) = table_index genome i;
          score1 = score + uint (JAZZ_TABLE_read chord_type scale_degree);
          score2 = score1 - \<bar>uint octave - 1\<bar> * 2;
          score3 = score2 - \<bar>uint waveform - 1\<bar> * 2
      in if i > 0
         then (let prev_note = g_note genome ! (i - 1);
                   prev_octave = g_octave genome ! (i - 1);
                   prev_gate = g_gate genome ! (i - 1);
                   interval = uint note + uint octave * int NUM_NOTES
                              - uint prev_note - uint prev_octave * int NUM_NOTES;
                   score4 = score3 - \<bar>interval\<bar>
               in if interval = 0 \<and> gate = 1 \<and> prev_gate = 1
                  then score4 - 5 else score4)
         else score3)"

function evaluateGenome_loop :: "Genome \<Rightarrow> nat \<Rightarrow> int \<Rightarrow> int" where
  "evaluateGenome_loop genome i score =
     (if i < NUM_STEPS
      then evaluateGenome_loop genome (i + 1) (score_step genome i score)
      else score)"
  by pat_completeness auto
termination
  by (relation "measure (\<lambda>(genome, i, score). NUM_STEPS - i)") auto

definition evaluateGenome :: "Genome \<Rightarrow> int" where
  "evaluateGenome genome = evaluateGenome_loop genome 0 0"

subsection \<open>evaluatePopulation\<close>

function evaluatePopulation_loop ::
  "Genome list \<Rightarrow> nat \<Rightarrow> Genome \<times> int \<Rightarrow> Genome \<times> int" where
  "evaluatePopulation_loop pop i best =
     (if i < POP_SIZE
      then evaluatePopulation_loop pop (i + 1)
             (if evaluateGenome (pop ! i) > snd best
              then (pop ! i, evaluateGenome (pop ! i)) else best)
      else best)"
  by pat_completeness auto
termination
  by (relation "measure (\<lambda>(pop, i, best). POP_SIZE - i)") auto

subsection \<open>The global state and the sequencer\<close>

record state =
  population :: "Genome list"
  best_genome :: Genome
  best_score :: int
  current_step :: nat
  current_bpm :: int
  step_time :: "32 word"
  last_time :: "32 word"
  beat_on :: bool
  like_pressed :: bool
  dislike_pressed :: bool
  rng :: "nat stream"

definition initPopulation :: "state \<Rightarrow> state" where
  "initPopulation st =
     (case initPopulation_loop 0 (population st) (rng st) of
        (pop, s) \<Rightarrow> st\<lparr>population := pop, rng := s\<rparr>)"

definition mutatePopulation_rate :: "real \<Rightarrow> state \<Rightarrow> state" where
  "mutatePopulation_rate rate st =
     (case mutatePopulation_loop rate 0 (population st) (rng st) of
        (pop, s) \<Rightarrow> st\<lparr>population := pop, rng := s\<rparr>)"

definition mutatePopulation :: "state \<Rightarrow> state" where
  "mutatePopulation = mutatePopulation_rate MUT_RATE"

definition evaluatePopulation :: "state \<Rightarrow> state" where
  "evaluatePopulation st =
     (case evaluatePopulation_loop (population st) 0 (best_genome st, - 9999) of
        (g, score) \<Rightarrow> st\<lparr>best_genome := g, best_score := score\<rparr>)"

text \<open>
  The two pairs of calls in \<open>loop\<close>, under the names the specification gives them:
  \<open>reinforce\<close> is \<open>mutatePopulation(); evaluatePopulation();\<close> and \<open>reset\<close> is
  \<open>initPopulation(); evaluatePopulation();\<close>.
\<close>

definition reinforce :: "state \<Rightarrow> state" where
  "reinforce st = evaluatePopulation (mutatePopulation st)"

definition reset :: "state \<Rightarrow> state" where
  "reset st = evaluatePopulation (initPopulation st)"

text \<open>What \<open>loop\<close> does once \<open>current_step\<close> has been set back to 0 (lines 118 to 134).\<close>

definition on_wrap :: "state \<Rightarrow> state" where
  "on_wrap st =
     (if like_pressed st then reinforce (st\<lparr>like_pressed := False\<rparr>)
      else if dislike_pressed st then reset (st\<lparr>dislike_pressed := False\<rparr>)
      else st)"

definition bpm_of_reading :: "int \<Rightarrow> int" where
  "bpm_of_reading reading = reading div 4 + 60"

definition step_time_of_bpm :: "int \<Rightarrow> int" where
  "step_time_of_bpm bpm = 60000 div bpm div 4"

text \<open>
  One step of the sequencer: the body of the \<open>if\<close> of \<open>loop\<close>, at the time
  \<open>current_time\<close> and with \<open>reading\<close> the value \<open>analogRead(BPM_PIN)\<close> returns (0 to
  1023). \<open>playStep\<close> only drives the oscillators and envelopes of the audio library and
  changes nothing of this state; \<open>digitalWrite\<close> outputs \<open>beat_on\<close>.
\<close>

definition tick :: "32 word \<Rightarrow> int \<Rightarrow> state \<Rightarrow> state" where
  "tick current_time reading st0 =
     (let st1 = st0\<lparr>last_time := current_time\<rparr>;
          st2 = st1\<lparr>current_step := current_step st1 + 1\<rparr>;
          st3 = (if current_step st2 = NUM_STEPS
                 then on_wrap (st2\<lparr>current_step := 0\<rparr>) else st2);
          st4 = st3\<lparr>beat_on := \<not> beat_on st3\<rparr>;
          st5 = st4\<lparr>current_bpm := bpm_of_reading reading\<rparr>;
          st6 = st5\<lparr>step_time := word_of_int (step_time_of_bpm (current_bpm st5))\<rparr>
      in st6)"

text \<open>\<open>loop\<close> without the call of the audio library: the step is taken when it is due.\<close>

definition loop :: "32 word \<Rightarrow> int \<Rightarrow> state \<Rightarrow> state" where
  "loop current_time reading st =
     (if current_time - last_time st \<ge> step_time st then tick current_time reading st
      else st)"

text \<open>\<open>updateControl\<close>: a button reads \<open>LOW\<close> while it is pressed.\<close>

definition updateControl :: "bool \<Rightarrow> bool \<Rightarrow> state \<Rightarrow> state" where
  "updateControl like_low dislike_low st =
     (let st1 = (if like_low then st\<lparr>like_pressed := True\<rparr> else st)
      in (if dislike_low then st1\<lparr>dislike_pressed := True\<rparr> else st1))"

text \<open>
  The part of the state the two transitions work on: the population, the best genome
  with its score, and the generator.
\<close>

definition engine :: "state \<Rightarrow> Genome list \<times> Genome \<times> int \<times> nat stream" where
  "engine st = (population st, best_genome st, best_score st, rng st)"

text \<open>
  A run of the sequencer: one step for each pair of a time and a reading, with no button
  pressed in between (\<open>updateControl\<close> is the only writer of the flags besides \<open>loop\<close>).
\<close>

fun ticks :: "(32 word \<times> int) list \<Rightarrow> state \<Rightarrow> state" where
  "ticks [] st = st"
| "ticks ((current_time, reading) # rest) st = ticks rest (tick current_time reading st)"

subsection \<open>The reference score of the specification\<close>

text \<open>
  The score as the specification words it (section 4.2), to be compared with
  \<open>evaluateGenome\<close>: the cells of the 7 by 7 table are integers, signed as they are
  written, and the score is the sum over the 64 steps of the contribution of each step.
  The specification gives no cell for a scale degree of 7 or more: there the reference
  sum is \<open>None\<close>.
\<close>

definition spec_table :: "int list list" where
  "spec_table =
    [[10, 0, 7, 0, 5, 0, 3],
     [10, 0, 5, 0, 7, 0, 3],
     [10, 0, 7, 0, 5, - 5, - 10],
     [10, - 5, - 10, - 5, - 10, - 5, - 10],
     [10, - 5, - 10, - 5, - 10, - 5, - 10],
     [10, - 5, - 10, - 5, - 10, - 5, - 10],
     [10, - 5, - 10, - 5, - 10, - 5, - 10]]"

definition spec_table_at :: "nat \<Rightarrow> nat \<Rightarrow> int option" where
  "spec_table_at chord_type scale_degree =
     (if chord_type < 7 \<and> scale_degree < 7
      then Some (spec_table ! chord_type ! scale_degree) else None)"

definition spec_progression :: "(nat \<times> int) list" where
  "spec_progression = [(0, 0), (1, 9), (2, 7), (1, 2)]"

definition spec_cell :: "Genome \<Rightarrow> nat \<Rightarrow> int option" where
  "spec_cell g i =
     (let (chord_type, root) = spec_progression ! (i div (64 div length spec_progression));
          scale_degree = (uint (g_note g ! i) - root + 12) mod 12
      in spec_table_at chord_type (nat scale_degree))"

definition spec_step :: "Genome \<Rightarrow> nat \<Rightarrow> int option" where
  "spec_step g i =
     (let pitch = (\<lambda>k. uint (g_note g ! k) + 12 * uint (g_octave g ! k));
          interval = pitch i - pitch (i - 1)
      in case spec_cell g i of
           None \<Rightarrow> None
         | Some t \<Rightarrow>
             Some (t - \<bar>uint (g_octave g ! i) - 1\<bar> * 2 - \<bar>uint (g_waveform g ! i) - 1\<bar> * 2
                   - (if i > 0
                      then \<bar>interval\<bar>
                           + (if interval = 0 \<and> g_gate g ! i = 1 \<and> g_gate g ! (i - 1) = 1
                              then 5 else 0)
                      else 0)))"

fun spec_sum :: "Genome \<Rightarrow> nat list \<Rightarrow> int option" where
  "spec_sum g [] = Some 0"
| "spec_sum g (i # rest) =
     (case spec_step g i of
        None \<Rightarrow> None
      | Some c \<Rightarrow> (case spec_sum g rest of None \<Rightarrow> None | Some r \<Rightarrow> Some (c + r)))"

definition spec_score :: "Genome \<Rightarrow> int option" where
  "spec_score g = spec_sum g [0..<64]"

text \<open>The steps of a genome at which the cell of the specification's table is negative.\<close>

definition negative_cell :: "Genome \<Rightarrow> nat \<Rightarrow> bool" where
  "negative_cell g i = (case spec_cell g i of None \<Rightarrow> False | Some t \<Rightarrow> t < 0)"

subsection \<open>The mutation of the specification\<close>

text \<open>
  The mutation as the specification words it (section 4.1), to be compared with
  \<open>mutatePopulation\<close>: for every field of every gene of every genome, in this order, a
  trial at the rate and, when the trial succeeds, the replacement of that single field
  with a fresh draw from its domain. The trial is a draw of \<open>random(100)\<close> below
  \<open>rate * 100\<close>: at the rate \<open>k / 100\<close> it succeeds for \<open>k\<close> of the 100 values.
\<close>

datatype gene_field = Note | Octave | Waveform | Gate

fun field_domain :: "gene_field \<Rightarrow> nat" where
  "field_domain Note = 12"
| "field_domain Octave = 4"
| "field_domain Waveform = 4"
| "field_domain Gate = 2"

fun set_field :: "gene_field \<Rightarrow> nat \<Rightarrow> byte \<Rightarrow> Genome \<Rightarrow> Genome" where
  "set_field Note j v g = g\<lparr>g_note := (g_note g)[j := v]\<rparr>"
| "set_field Octave j v g = g\<lparr>g_octave := (g_octave g)[j := v]\<rparr>"
| "set_field Waveform j v g = g\<lparr>g_waveform := (g_waveform g)[j := v]\<rparr>"
| "set_field Gate j v g = g\<lparr>g_gate := (g_gate g)[j := v]\<rparr>"

definition spec_mutate_field ::
  "real \<Rightarrow> nat \<times> nat \<times> gene_field \<Rightarrow> Genome list \<times> nat stream \<Rightarrow> Genome list \<times> nat stream" where
  "spec_mutate_field rate place ps =
     (case place of
        (i, j, f) \<Rightarrow>
          (case ps of
             (pop, s0) \<Rightarrow>
               (case random 100 s0 of
                  (r, s1) \<Rightarrow>
                    if real r < rate * 100
                    then (case random (field_domain f) s1 of
                            (v, s2) \<Rightarrow> (pop[i := set_field f j (of_nat v) (pop ! i)], s2))
                    else (pop, s1))))"

definition spec_fields :: "(nat \<times> nat \<times> gene_field) list" where
  "spec_fields = [(i, j, f). i \<leftarrow> [0..<100], j \<leftarrow> [0..<64], f \<leftarrow> [Note, Octave, Waveform, Gate]]"

definition spec_mutate :: "real \<Rightarrow> Genome list \<Rightarrow> nat stream \<Rightarrow> Genome list \<times> nat stream" where
  "spec_mutate rate pop s = fold (spec_mutate_field rate) spec_fields (pop, s)"

subsection \<open>Concrete inputs\<close>

text \<open>
  A bassline that plays the root of each chord: C for 16 steps, then A, G and D, in
  octave 1, on waveform 1, with the gate off.
\<close>

definition example_roots :: Genome where
  "example_roots =
     \<lparr>g_note = replicate 16 0 @ replicate 16 9 @ replicate 16 7 @ replicate 16 2,
      g_octave = replicate 64 1, g_waveform = replicate 64 1, g_gate = replicate 64 0\<rparr>"

text \<open>The same with C under the G dominant chord: scale degree 5 of the dominant row.\<close>

definition example_dominant :: Genome where
  "example_dominant =
     \<lparr>g_note = replicate 16 0 @ replicate 16 9 @ replicate 16 0 @ replicate 16 2,
      g_octave = replicate 64 1, g_waveform = replicate 64 1, g_gate = replicate 64 0\<rparr>"

text \<open>The same as \<open>example_roots\<close> with G under the C major chord: scale degree 7.\<close>

definition example_fifth :: Genome where
  "example_fifth =
     \<lparr>g_note = replicate 16 7 @ replicate 16 9 @ replicate 16 7 @ replicate 16 2,
      g_octave = replicate 64 1, g_waveform = replicate 64 1, g_gate = replicate 64 0\<rparr>"

text \<open>\<open>example_roots\<close> with its first note replaced by C sharp (1).\<close>

definition example_mutated :: Genome where
  "example_mutated =
     \<lparr>g_note = 1 # replicate 15 0 @ replicate 16 9 @ replicate 16 7 @ replicate 16 2,
      g_octave = replicate 64 1, g_waveform = replicate 64 1, g_gate = replicate 64 0\<rparr>"

text \<open>\<open>example_roots\<close> with the gate of its first step on: another genome of the same score.\<close>

definition example_gated :: Genome where
  "example_gated =
     \<lparr>g_note = replicate 16 0 @ replicate 16 9 @ replicate 16 7 @ replicate 16 2,
      g_octave = replicate 64 1, g_waveform = replicate 64 1, g_gate = 1 # replicate 63 0\<rparr>"

text \<open>
  A period of 257 outputs of the generator: 0, and then 256 times 13. Over one genome the
  first test of \<open>mutatePopulation\<close> draws 0 and passes, the note of step 0 becomes
  \<open>13 % 12 = 1\<close>, and the 255 other tests draw 13 and fail.
\<close>

definition example_draws :: "nat list" where
  "example_draws = 0 # replicate 256 13"

text \<open>
  A state at the last step of a traversal, with both buttons latched: 100 copies of
  \<open>example_roots\<close>, already evaluated, and the periodic generator.
\<close>

definition example_state :: state where
  "example_state =
     \<lparr>population = replicate 100 example_roots, best_genome = example_roots, best_score = 624,
      current_step = 63, current_bpm = 120, step_time = 125, last_time = 0, beat_on = True,
      like_pressed = True, dislike_pressed = True, rng = cycle example_draws\<rparr>"

text \<open>
  A population in which the best score 624 is met first by member 1 and again by member
  2, a different genome; the other members score 613.
\<close>

definition example_tie_state :: state where
  "example_tie_state =
     example_state\<lparr>population :=
       [example_mutated, example_gated, example_roots] @ replicate 97 example_mutated\<rparr>"

subsection \<open>Loop invariants\<close>

text \<open>
  The invariant of the loop of \<open>evaluatePopulation\<close> before it looks at member \<open>i\<close>,
  where \<open>sc k\<close> is the score of member \<open>k\<close>: nothing is selected yet and the best score
  is the initial \<open>-9999\<close>, or the selection is the first member among the first \<open>i\<close>
  whose score is the greatest of theirs.
\<close>

definition selected :: "(nat \<Rightarrow> int) \<Rightarrow> Genome list \<Rightarrow> nat \<Rightarrow> Genome \<times> int \<Rightarrow> bool" where
  "selected sc pop i best \<longleftrightarrow>
     (if i = 0 then snd best = - 9999
      else (\<exists>k<i. best = (pop ! k, sc k) \<and> (\<forall>j<k. sc j < sc k) \<and> (\<forall>j<i. sc j \<le> sc k)))"

text \<open>
  The invariant of the inner loop of \<open>initPopulation\<close> before step \<open>j\<close>: the fields of
  the steps below \<open>j\<close> are in their domains.
\<close>

definition dom_upto :: "nat \<Rightarrow> Genome \<Rightarrow> bool" where
  "dom_upto j g \<longleftrightarrow>
     (\<forall>k<j. unat (g_note g ! k) < 12 \<and> unat (g_octave g ! k) < 4 \<and>
            unat (g_waveform g ! k) < 4 \<and> unat (g_gate g ! k) < 2)"

text \<open>
  At rate 1 every step of \<open>mutatePopulation\<close> takes 8 outputs of the generator: for each
  field one for the test and one for the value. \<open>drawn s i j k\<close> is output \<open>k\<close> (0 to 7)
  of step \<open>j\<close> of genome \<open>i\<close>.
\<close>

definition drawn :: "nat stream \<Rightarrow> nat \<Rightarrow> nat \<Rightarrow> nat \<Rightarrow> nat" where
  "drawn s i j k = s !! (8 * (NUM_STEPS * i + j) + k)"

text \<open>
  Every step of \<open>initPopulation\<close> takes 4 outputs of the generator, one for each field.
  \<open>init_drawn s i j k\<close> is output \<open>k\<close> (0 to 3) of step \<open>j\<close> of genome \<open>i\<close>.
\<close>

definition init_drawn :: "nat stream \<Rightarrow> nat \<Rightarrow> nat \<Rightarrow> nat \<Rightarrow> nat" where
  "init_drawn s i j k = s !! (4 * (NUM_STEPS * i + j) + k)"

text \<open>
  The assignment \<open>population[i] = g\<close> after the inner loop of \<open>mutatePopulation\<close>,
  on the pair of a genome and the generator that the inner loop returns.
\<close>

definition update_member ::
  "nat \<Rightarrow> Genome list \<Rightarrow> Genome \<times> nat stream \<Rightarrow> Genome list \<times> nat stream" where
  "update_member i pop gs = (pop[i := fst gs], snd gs)"


section \<open>Properties\<close>

text \<open>The recursive equations of the loops are unfolded by hand, one iteration at a time.\<close>

declare init_steps.simps [simp del] initPopulation_loop.simps [simp del]
  mutate_steps.simps [simp del] mutatePopulation_loop.simps [simp del]
  evaluateGenome_loop.simps [simp del] evaluatePopulation_loop.simps [simp del]

subsection \<open>The tempo\<close>

lemma bpm_of_reading_range:
  "0 \<le> reading \<Longrightarrow> reading \<le> 1023 \<Longrightarrow>
     60 \<le> bpm_of_reading reading \<and> bpm_of_reading reading \<le> 315"
  unfolding bpm_of_reading_def by linarith

lemma tick_tempo:
  "current_bpm (tick current_time reading st) = bpm_of_reading reading \<and>
   step_time (tick current_time reading st)
     = word_of_int (step_time_of_bpm (bpm_of_reading reading))"
  by (simp add: tick_def Let_def)

text \<open>
  C5. The claim: every reading in [0,1023] gives a BPM in [60,300]. The sketch computes
  \<open>analogRead(BPM_PIN) / 4 + 60\<close> and never clamps it: the reading 1023 gives 315 BPM
  and a step of 47 ms, where 300 BPM would give 50 ms.
\<close>

theorem bpm_of_reading_exceeds_300:
  "bpm_of_reading 1023 = 315 \<and> \<not> bpm_of_reading 1023 \<le> 300 \<and>
   step_time_of_bpm (bpm_of_reading 1023) = 47 \<and> step_time_of_bpm 300 = 50"
  by (simp add: bpm_of_reading_def step_time_of_bpm_def)

subsection \<open>The table\<close>

text \<open>
  C3. The claim: a step whose lookup hits a cell written \<open>-5\<close> or \<open>-10\<close> lowers the
  score. The cells are bytes: the dominant row holds 251 at scale degree 5 and 246 at
  scale degree 6, and step 33 of \<open>example_dominant\<close> (C under G dominant, degree 5, same
  pitch as the step before, octave 1, waveform 1) takes the score from 100 to 351. The
  specification's step contributes \<open>-5\<close> there.
\<close>

theorem negative_cell_raises_score:
  "map_option uint (JAZZ_TABLE_at 2 5) = Some 251 \<and>
   map_option uint (JAZZ_TABLE_at 2 6) = Some 246 \<and>
   table_index example_dominant 33 = (2, 5) \<and>
   uint (JAZZ_TABLE_read 2 5) = 251 \<and> uint (JAZZ_TABLE_read 2 6) = 246 \<and>
   score_step example_dominant 33 100 = 351 \<and>
   spec_step example_dominant 33 = Some (- 5)"
  by code_simp

text \<open>
  C2. The claim: for in-domain genomes every lookup has \<open>scale_degree < 7\<close>. In
  \<open>example_fifth\<close> the steps 0 to 15 play G (7) under C major (root 0): the scale
  degree is 7 and the read \<open>JAZZ_TABLE[0][7]\<close> is outside the row; the checked lookup
  takes its out-of-range branch at these 16 steps and at no other. The sketch reads the
  byte 7 places into the table, which is \<open>JAZZ_TABLE[1][0] = 10\<close>, and scores the
  genome 631.
\<close>

theorem lookup_out_of_bounds:
  "wf_genome example_fifth \<and> in_domain example_fifth \<and>
   table_index example_fifth 0 = (0, 7) \<and>
   JAZZ_TABLE_at 0 7 = None \<and>
   lookup_checked example_fifth 0 = None \<and>
   filter (\<lambda>i. lookup_checked example_fifth i = None) [0..<64] = [0..<16] \<and>
   JAZZ_TABLE_read 0 7 = 10 \<and> evaluateGenome example_fifth = 631"
  by code_simp

subsection \<open>The score\<close>

text \<open>
  C1. The claim: for in-domain genomes \<open>evaluateGenome\<close> returns the reference sum of
  the specification. \<open>example_dominant\<close> is in-domain and every one of its lookups is
  inside the table; 16 of them hit the cell written \<open>-5\<close>. The reference sum is 380;
  the sketch adds the byte 251 each time and returns 4476.
\<close>

theorem evaluateGenome_differs_from_spec:
  "wf_genome example_dominant \<and> in_domain example_dominant \<and>
   filter (\<lambda>i. lookup_checked example_dominant i = None) [0..<64] = [] \<and>
   evaluateGenome example_dominant = 4476 \<and> spec_score example_dominant = Some 380"
  by code_simp

subsection \<open>Bounds of the score\<close>

lemma uint_less_of_unat: "unat (w :: byte) < n \<Longrightarrow> uint w < int n"
  unfolding uint_nat by linarith

lemma in_domain_nth:
  assumes "in_domain g" "wf_genome g" "i < NUM_STEPS"
  shows "uint (g_note g ! i) < 12" "uint (g_octave g ! i) < 4"
        "uint (g_waveform g ! i) < 4" "uint (g_gate g ! i) < 2"
proof -
  have "unat (g_note g ! i) < 12" "unat (g_octave g ! i) < 4"
       "unat (g_waveform g ! i) < 4" "unat (g_gate g ! i) < 2"
    using assms by (simp_all add: in_domain_def wf_genome_def list_all_length)
  then show "uint (g_note g ! i) < 12" "uint (g_octave g ! i) < 4"
        "uint (g_waveform g ! i) < 4" "uint (g_gate g ! i) < 2"
    using uint_less_of_unat [of "g_note g ! i" 12] uint_less_of_unat [of "g_octave g ! i" 4]
      uint_less_of_unat [of "g_waveform g ! i" 4] uint_less_of_unat [of "g_gate g ! i" 2]
    by simp_all
qed

lemma score_step_eq:
  "score_step g i s =
     s + uint (JAZZ_TABLE_read (fst (table_index g i)) (snd (table_index g i)))
       - \<bar>uint (g_octave g ! i) - 1\<bar> * 2 - \<bar>uint (g_waveform g ! i) - 1\<bar> * 2
       - (if i > 0
          then \<bar>uint (g_note g ! i) + uint (g_octave g ! i) * 12
                - uint (g_note g ! (i - 1)) - uint (g_octave g ! (i - 1)) * 12\<bar>
               + (if uint (g_note g ! i) + uint (g_octave g ! i) * 12
                     - uint (g_note g ! (i - 1)) - uint (g_octave g ! (i - 1)) * 12 = 0
                     \<and> g_gate g ! i = 1 \<and> g_gate g ! (i - 1) = 1
                  then 5 else 0)
          else 0)"
  by (simp add: score_step_def Let_def NUM_NOTES_def split_beta)

lemma score_step_bounds:
  assumes dom: "in_domain g" and wf: "wf_genome g" and i: "i < NUM_STEPS"
  shows "s - 60 \<le> score_step g i s \<and> score_step g i s \<le> s + 255"
proof -
  define a b c a' b' where "a = uint (g_note g ! i)" and "b = uint (g_octave g ! i)"
    and "c = uint (g_waveform g ! i)" and "a' = uint (g_note g ! (i - 1))"
    and "b' = uint (g_octave g ! (i - 1))"
  have n: "a < 12" "b < 4" "c < 4"
    using in_domain_nth [OF dom wf i] by (simp_all add: a_def b_def c_def)
  have p: "a' < 12" "b' < 4"
    using in_domain_nth [OF dom wf, of "i - 1"] i by (simp_all add: a'_def b'_def)
  have z: "0 \<le> a" "0 \<le> b" "0 \<le> c" "0 \<le> a'" "0 \<le> b'"
    by (simp_all add: a_def b_def c_def a'_def b'_def)
  define d where "d = (if i > 0
             then \<bar>a + b * 12 - a' - b' * 12\<bar>
                  + (if a + b * 12 - a' - b' * 12 = 0 \<and> g_gate g ! i = 1 \<and> g_gate g ! (i - 1) = 1
                     then 5 else (0::int))
             else 0)"
  define u where "u = uint (JAZZ_TABLE_read (fst (table_index g i)) (snd (table_index g i)))"
  have u: "0 \<le> u" "u \<le> 255"
    using uint_lt2p [of "JAZZ_TABLE_read (fst (table_index g i)) (snd (table_index g i))"]
    by (simp_all add: u_def)
  have e: "score_step g i s = s + u - \<bar>b - 1\<bar> * 2 - \<bar>c - 1\<bar> * 2 - d"
    unfolding score_step_eq a_def b_def c_def a'_def b'_def d_def u_def ..
  have i1: "\<bar>a + b * 12 - a' - b' * 12\<bar> \<le> 47"
    using n p z by linarith
  have d: "0 \<le> d" "d \<le> 52"
    using i1 by (simp_all add: d_def)
  define p q where "p = \<bar>b - 1\<bar>" and "q = \<bar>c - 1\<bar>"
  have bc: "0 \<le> p" "p \<le> 2" "0 \<le> q" "q \<le> 2"
    using n z unfolding p_def q_def by linarith+
  have s': "score_step g i s = s + u - p * 2 - q * 2 - d"
    using e by (simp add: p_def q_def)
  have "s - 60 \<le> score_step g i s" using u s' d bc by linarith
  moreover have "score_step g i s \<le> s + 255" using u s' d bc by linarith
  ultimately show ?thesis by simp
qed

lemma evaluateGenome_loop_bounds:
  "in_domain g \<Longrightarrow> wf_genome g \<Longrightarrow> i \<le> NUM_STEPS \<Longrightarrow>
     s - 60 * int (NUM_STEPS - i) \<le> evaluateGenome_loop g i s \<and>
     evaluateGenome_loop g i s \<le> s + 255 * int (NUM_STEPS - i)"
proof (induction g i s rule: evaluateGenome_loop.induct)
  case (1 genome i score)
  show ?case
  proof (cases "i < NUM_STEPS")
    case False
    with "1.prems" show ?thesis by (simp add: evaluateGenome_loop.simps)
  next
    case True
    define m where "m = score_step genome i score"
    have r: "evaluateGenome_loop genome i score = evaluateGenome_loop genome (i + 1) m"
      using True by (subst evaluateGenome_loop.simps) (simp add: m_def)
    have b: "score - 60 \<le> m \<and> m \<le> score + 255"
      using score_step_bounds [OF "1.prems"(1,2) True] by (simp add: m_def)
    have "m - 60 * int (NUM_STEPS - (i + 1)) \<le> evaluateGenome_loop genome (i + 1) m \<and>
        evaluateGenome_loop genome (i + 1) m \<le> m + 255 * int (NUM_STEPS - (i + 1))"
      using "1.IH" [OF True "1.prems"(1,2)] True by (simp add: m_def)
    moreover have "int (NUM_STEPS - i) = int (NUM_STEPS - (i + 1)) + 1"
      using True by simp
    ultimately show ?thesis using b unfolding r by (simp add: algebra_simps)
  qed
qed

lemma evaluateGenome_bounds:
  "in_domain g \<Longrightarrow> wf_genome g \<Longrightarrow> - 3840 \<le> evaluateGenome g \<and> evaluateGenome g \<le> 16320"
  using evaluateGenome_loop_bounds [of g 0 0] by (simp add: evaluateGenome_def NUM_STEPS_def)

subsection \<open>Selection of the best genome\<close>

lemma evaluatePopulation_loop_selected:
  "\<forall>k<POP_SIZE. evaluateGenome (pop ! k) = sc k \<and> - 9999 < sc k \<Longrightarrow>
   i \<le> POP_SIZE \<Longrightarrow> selected sc pop i best \<Longrightarrow>
     selected sc pop POP_SIZE (evaluatePopulation_loop pop i best)"
proof (induction pop i best rule: evaluatePopulation_loop.induct)
  case (1 pop i best)
  note sc = "1.prems"(1)
  show ?case
  proof (cases "i < POP_SIZE")
    case False
    with "1.prems" show ?thesis by (simp add: evaluatePopulation_loop.simps)
  next
    case True
    let ?b = "if sc i > snd best then (pop ! i, sc i) else best"
    have e: "evaluateGenome (pop ! i) = sc i" and low: "- 9999 < sc i"
      using sc True by simp_all
    have "selected sc pop (i + 1) ?b"
    proof (cases "i = 0")
      case True
      then show ?thesis using "1.prems"(3) low by (simp add: selected_def)
    next
      case False
      then obtain k where k: "k < i" "best = (pop ! k, sc k)" "\<forall>j<k. sc j < sc k" "\<forall>j<i. sc j \<le> sc k"
        using "1.prems"(3) by (auto simp: selected_def)
      show ?thesis
      proof (cases "sc i > sc k")
        case True
        have "\<forall>j<i. sc j < sc i" using k(4) True by fastforce
        moreover have "\<forall>j<i + 1. sc j \<le> sc i" using k(4) True by (fastforce simp: less_Suc_eq)
        ultimately show ?thesis using True k(2) by (auto simp: selected_def)
      next
        case False
        then have "\<forall>j<i + 1. sc j \<le> sc k" using k(4) by (auto simp: less_Suc_eq)
        then show ?thesis using False k by (auto simp: selected_def intro!: exI [of _ k])
      qed
    qed
    then have "selected sc pop (i + 1)
        (if evaluateGenome (pop ! i) > snd best then (pop ! i, evaluateGenome (pop ! i)) else best)"
      unfolding e .
    from "1.IH" [OF True sc _ this] True
    have "selected sc pop POP_SIZE (evaluatePopulation_loop pop (i + 1)
        (if evaluateGenome (pop ! i) > snd best then (pop ! i, evaluateGenome (pop ! i)) else best))"
      by simp
    then show ?thesis using True by (subst evaluatePopulation_loop.simps) simp
  qed
qed

subsection \<open>The sequencer\<close>

lemma evaluatePopulation_engine:
  "population st = population st' \<Longrightarrow> best_genome st = best_genome st' \<Longrightarrow> rng st = rng st' \<Longrightarrow>
     engine (evaluatePopulation st) = engine (evaluatePopulation st')"
  by (simp add: evaluatePopulation_def engine_def split_beta)

lemma reinforce_engine:
  "population st = population st' \<Longrightarrow> best_genome st = best_genome st' \<Longrightarrow> rng st = rng st' \<Longrightarrow>
     engine (reinforce st) = engine (reinforce st')"
  unfolding reinforce_def mutatePopulation_def mutatePopulation_rate_def
  by (rule evaluatePopulation_engine) (simp_all add: split_beta)

lemma reset_engine:
  "population st = population st' \<Longrightarrow> best_genome st = best_genome st' \<Longrightarrow> rng st = rng st' \<Longrightarrow>
     engine (reset st) = engine (reset st')"
  unfolding reset_def initPopulation_def
  by (rule evaluatePopulation_engine) (simp_all add: split_beta)

lemma evaluatePopulation_keeps:
  "population (evaluatePopulation st) = population st"
  "rng (evaluatePopulation st) = rng st"
  "like_pressed (evaluatePopulation st) = like_pressed st"
  "dislike_pressed (evaluatePopulation st) = dislike_pressed st"
  "current_step (evaluatePopulation st) = current_step st"
  by (simp_all add: evaluatePopulation_def split_beta)

lemma reinforce_keeps:
  "like_pressed (reinforce st) = like_pressed st"
  "dislike_pressed (reinforce st) = dislike_pressed st"
  "current_step (reinforce st) = current_step st"
  by (simp_all add: reinforce_def evaluatePopulation_keeps mutatePopulation_def
      mutatePopulation_rate_def split_beta)

lemma reset_keeps:
  "like_pressed (reset st) = like_pressed st"
  "dislike_pressed (reset st) = dislike_pressed st"
  "current_step (reset st) = current_step st"
  "population (reset st) = population (initPopulation st)"
  by (simp_all add: reset_def evaluatePopulation_keeps initPopulation_def split_beta)

lemma tick_engine_wrap:
  assumes "current_step st + 1 = NUM_STEPS"
  shows "engine (tick t r st) = engine (on_wrap (st\<lparr>last_time := t, current_step := 0\<rparr>))"
  using assms by (simp add: tick_def Let_def engine_def)

lemma tick_wrap_engine:
  assumes "current_step st + 1 = NUM_STEPS"
  shows "(like_pressed st \<longrightarrow> engine (tick t r st) = engine (reinforce st)) \<and>
         (\<not> like_pressed st \<and> dislike_pressed st \<longrightarrow> engine (tick t r st) = engine (reset st)) \<and>
         (\<not> like_pressed st \<and> \<not> dislike_pressed st \<longrightarrow> engine (tick t r st) = engine st)"
proof (intro conjI impI)
  assume "like_pressed st"
  then have "engine (tick t r st) =
      engine (reinforce (st\<lparr>last_time := t, current_step := 0, like_pressed := False\<rparr>))"
    unfolding tick_engine_wrap [OF assms] on_wrap_def by simp
  also have "\<dots> = engine (reinforce st)"
    by (rule reinforce_engine) simp_all
  finally show "engine (tick t r st) = engine (reinforce st)" .
next
  assume "\<not> like_pressed st \<and> dislike_pressed st"
  then have "engine (tick t r st) =
      engine (reset (st\<lparr>last_time := t, current_step := 0, dislike_pressed := False\<rparr>))"
    unfolding tick_engine_wrap [OF assms] on_wrap_def by simp
  also have "\<dots> = engine (reset st)"
    by (rule reset_engine) simp_all
  finally show "engine (tick t r st) = engine (reset st)" .
next
  assume "\<not> like_pressed st \<and> \<not> dislike_pressed st"
  then show "engine (tick t r st) = engine st"
    unfolding tick_engine_wrap [OF assms] on_wrap_def
    by (simp add: engine_def)
qed

lemma tick_wrap_flags:
  assumes "current_step st + 1 = NUM_STEPS"
  shows "current_step (tick t r st) = 0 \<and>
         (like_pressed st \<longrightarrow>
            \<not> like_pressed (tick t r st) \<and> dislike_pressed (tick t r st) = dislike_pressed st) \<and>
         (\<not> like_pressed st \<longrightarrow>
            \<not> like_pressed (tick t r st) \<and> \<not> dislike_pressed (tick t r st))"
  using assms
  by (simp add: tick_def Let_def on_wrap_def reinforce_keeps reset_keeps)

lemma tick_no_wrap:
  assumes "current_step st + 1 \<noteq> NUM_STEPS"
  shows "engine (tick t r st) = engine st \<and>
         current_step (tick t r st) = current_step st + 1 \<and>
         like_pressed (tick t r st) = like_pressed st \<and>
         dislike_pressed (tick t r st) = dislike_pressed st"
  using assms by (simp add: tick_def Let_def engine_def)

lemma ticks_no_wrap:
  "current_step st + length ins < NUM_STEPS \<Longrightarrow>
     engine (ticks ins st) = engine st \<and>
     current_step (ticks ins st) = current_step st + length ins \<and>
     like_pressed (ticks ins st) = like_pressed st \<and>
     dislike_pressed (ticks ins st) = dislike_pressed st"
proof (induction ins arbitrary: st)
  case Nil
  then show ?case by simp
next
  case (Cons a ins)
  obtain t r where a: "a = (t, r)" by (cases a)
  from Cons.prems have "current_step st + 1 \<noteq> NUM_STEPS" by simp
  note m = tick_no_wrap [OF this, of t r]
  from Cons.prems m have "current_step (tick t r st) + length ins < NUM_STEPS" by simp
  from Cons.IH [OF this] m a show ?case by simp
qed

subsection \<open>A population that one reinforcement degrades\<close>

lemma example_scores:
  "evaluateGenome example_roots = 624" "evaluateGenome example_mutated = 613"
  "evaluateGenome example_gated = 624"
  by code_simp+

lemma example_wf:
  "wf_genome example_roots" "in_domain example_roots"
  "wf_genome example_mutated" "in_domain example_mutated"
  "wf_genome example_gated" "in_domain example_gated"
  by code_simp+

lemma mutate_step_quiet:
  "a mod 100 \<noteq> 0 \<Longrightarrow> b mod 100 \<noteq> 0 \<Longrightarrow> c mod 100 \<noteq> 0 \<Longrightarrow> d mod 100 \<noteq> 0 \<Longrightarrow>
     mutate_step MUT_RATE j g (a ## b ## c ## d ## s) = (g, s)"
  by (simp add: mutate_step_def mutate_note_def mutate_octave_def mutate_waveform_def
      mutate_gate_def random_def MUT_RATE_def)

lemma mutate_steps_quiet:
  "n = NUM_STEPS - j \<Longrightarrow> j \<le> NUM_STEPS \<Longrightarrow>
     mutate_steps MUT_RATE j g (replicate (4 * n) 13 @- s) = (g, s)"
proof (induction n arbitrary: j)
  case 0
  then show ?case by (simp add: mutate_steps.simps)
next
  case (Suc n)
  then have j: "j < NUM_STEPS" and n: "n = NUM_STEPS - (j + 1)" by simp_all
  have "4 * Suc n = Suc (Suc (Suc (Suc (4 * n))))" by simp
  then have r: "replicate (4 * Suc n) (13::nat) @- s = 13 ## 13 ## 13 ## 13 ## (replicate (4 * n) 13 @- s)"
    by (simp only: replicate.simps shift.simps)
  show ?case
    unfolding r using j Suc.IH [OF n]
    by (subst mutate_steps.simps) (simp add: mutate_step_quiet)
qed

lemma example_mutated_eq:
  "example_roots\<lparr>g_note := (g_note example_roots)[0 := 1]\<rparr> = example_mutated"
  by code_simp

lemma mutate_step_example:
  "mutate_step MUT_RATE 0 example_roots (0 ## 13 ## 13 ## 13 ## 13 ## s) = (example_mutated, s)"
  by (simp add: mutate_step_def mutate_note_def mutate_octave_def mutate_waveform_def
      mutate_gate_def random_def MUT_RATE_def NUM_NOTES_def example_mutated_eq)

lemma example_draws_unfold:
  "example_draws @- s = 0 ## 13 ## 13 ## 13 ## 13 ## (replicate (4 * 63) 13 @- s)"
proof -
  have e: "example_draws = 0 # 13 # 13 # 13 # 13 # replicate (4 * 63) 13"
    by code_simp
  show ?thesis unfolding e by (simp only: shift.simps)
qed

lemma mutate_steps_example:
  "mutate_steps MUT_RATE 0 example_roots (example_draws @- s) = (example_mutated, s)"
proof -
  have "mutate_steps MUT_RATE (0 + 1) example_mutated (replicate (4 * 63) 13 @- s) = (example_mutated, s)"
    by (rule mutate_steps_quiet) (simp_all add: NUM_STEPS_def)
  then show ?thesis
    unfolding example_draws_unfold
    by (subst mutate_steps.simps) (simp add: mutate_step_example NUM_STEPS_def)
qed

lemma example_cycle: "cycle example_draws = example_draws @- cycle example_draws"
  by (rule cycle_decomp) (simp add: example_draws_def)

lemma mutatePopulation_loop_example:
  "n = POP_SIZE - i \<Longrightarrow> i \<le> POP_SIZE \<Longrightarrow>
     mutatePopulation_loop MUT_RATE i
       (replicate i example_mutated @ replicate n example_roots) (cycle example_draws)
     = (replicate POP_SIZE example_mutated, cycle example_draws)"
proof (induction n arbitrary: i)
  case 0
  then show ?case by (simp add: mutatePopulation_loop.simps)
next
  case (Suc n)
  then have i: "i < POP_SIZE" and n: "n = POP_SIZE - (i + 1)" by simp_all
  let ?pop = "replicate i example_mutated @ replicate (Suc n) example_roots"
  have nth: "?pop ! i = example_roots"
    by (simp add: nth_append)
  have upd: "?pop[i := example_mutated] = replicate (i + 1) example_mutated @ replicate n example_roots"
    by (simp add: list_update_append replicate_append_same)
  have "mutate_steps MUT_RATE 0 (?pop ! i) (cycle example_draws) = (example_mutated, cycle example_draws)"
    unfolding nth by (subst example_cycle) (rule mutate_steps_example)
  then show ?case
    using i Suc.IH [OF n] upd
    by (subst mutatePopulation_loop.simps) simp
qed

lemma evaluatePopulation_loop_replicate:
  assumes "- 9999 < evaluateGenome g"
  shows "evaluatePopulation_loop (replicate POP_SIZE g) 0 (b, - 9999) = (g, evaluateGenome g)"
proof -
  have "\<forall>k<POP_SIZE. evaluateGenome (replicate POP_SIZE g ! k) = (\<lambda>_. evaluateGenome g) k \<and>
      - 9999 < (\<lambda>_. evaluateGenome g) k"
    using assms by simp
  from evaluatePopulation_loop_selected [OF this, of 0 "(b, - 9999)"]
  have "selected (\<lambda>_. evaluateGenome g) (replicate POP_SIZE g) POP_SIZE
      (evaluatePopulation_loop (replicate POP_SIZE g) 0 (b, - 9999))"
    by (simp add: selected_def)
  then show ?thesis by (auto simp: selected_def POP_SIZE_def)
qed

lemma reinforce_example:
  assumes "population st = replicate POP_SIZE example_roots" "rng st = cycle example_draws"
  shows "reinforce st = st\<lparr>population := replicate POP_SIZE example_mutated,
            rng := cycle example_draws, best_genome := example_mutated, best_score := 613\<rparr>"
proof -
  have "mutatePopulation_loop MUT_RATE 0 (replicate POP_SIZE example_roots) (cycle example_draws)
      = (replicate POP_SIZE example_mutated, cycle example_draws)"
    using mutatePopulation_loop_example [of POP_SIZE 0] by simp
  then have "mutatePopulation st = st\<lparr>population := replicate POP_SIZE example_mutated,
      rng := cycle example_draws\<rparr>"
    using assms by (simp add: mutatePopulation_def mutatePopulation_rate_def)
  then show ?thesis
    using evaluatePopulation_loop_replicate [of example_mutated "best_genome st"]
    by (simp add: reinforce_def evaluatePopulation_def example_scores)
qed

lemma example_state_evaluated:
  "evaluatePopulation example_state = example_state"
  using evaluatePopulation_loop_replicate [of example_roots example_roots]
  by (simp add: evaluatePopulation_def example_state_def POP_SIZE_def example_scores)

lemma example_state_wf:
  "wf_population (population example_state)" "list_all in_domain (population example_state)"
  using example_wf by (simp_all add: wf_population_def example_state_def POP_SIZE_def list_all_iff)

lemma tick_example:
  "tick t r example_state =
     example_state\<lparr>last_time := t, current_step := 0, like_pressed := False,
        population := replicate POP_SIZE example_mutated, best_genome := example_mutated,
        best_score := 613, beat_on := False, current_bpm := bpm_of_reading r,
        step_time := word_of_int (step_time_of_bpm (bpm_of_reading r))\<rparr>"
  using reinforce_example [of "example_state\<lparr>last_time := t, current_step := 0, like_pressed := False\<rparr>"]
  by (simp add: tick_def on_wrap_def Let_def example_state_def POP_SIZE_def NUM_STEPS_def)

text \<open>
  C10. Reinforcement keeps no champion. In \<open>example_state\<close> the population is 100
  in-domain copies of \<open>example_roots\<close>, evaluated: the best score is 624. With the
  generator of period \<open>example_draws\<close>, \<open>mutatePopulation\<close> changes the first note of
  every member, the former best genome is in the population no more, and
  \<open>evaluatePopulation\<close> finds the best score 613.
\<close>

theorem reinforce_lowers_best_score:
  "wf_population (population example_state) \<and> list_all in_domain (population example_state) \<and>
   evaluatePopulation example_state = example_state \<and>
   best_score example_state = 624 \<and>
   best_score (reinforce example_state) = 613"
  using example_state_wf example_state_evaluated
    reinforce_example [of example_state]
  by (simp add: example_state_def POP_SIZE_def)

text \<open>
  C4, as claimed: a wrap with the like flag latched clears both flags. In
  \<open>example_state\<close> both flags are latched at step 63; the step that wraps clears the like
  flag and leaves the dislike flag latched.
\<close>

theorem dislike_survives_like_wrap:
  "current_step example_state + 1 = NUM_STEPS \<and>
   like_pressed example_state \<and> dislike_pressed example_state \<and>
   like_pressed (tick 0 0 example_state) = False \<and>
   dislike_pressed (tick 0 0 example_state) = True"
  by (simp add: tick_example) (simp add: example_state_def NUM_STEPS_def)

subsection \<open>The outputs of the generator that initPopulation stores\<close>

lemma shifted_update:
  assumes "j < length xs"
      and "ys ! k = (if k < j + 1 then xs[j := v] ! k else f (k - (j + 1)))"
      and "f' 0 = v" and "\<And>m. f' (m + 1) = f m"
  shows "ys ! k = (if k < j then xs ! k else f' (k - j))"
proof (cases "k < j" "k = j" rule: case_split [case_product case_split])
  case True_True
  then show ?thesis by simp
next
  case True_False
  with assms(2) show ?thesis by simp
next
  case False_True
  with assms(1,2,3) show ?thesis by simp
next
  case False_False
  then have "k - j = (k - (j + 1)) + 1" by simp
  with assms(4) [of "k - (j + 1)"] have "f' (k - j) = f (k - (j + 1))" by simp
  with False_False assms(2) show ?thesis by simp
qed

lemma init_positions:
  "s !! 1 = shd (stl s)" "s !! 2 = shd (stl (stl s))" "s !! 3 = shd (stl (stl (stl s)))"
  "sdrop 4 s = stl (stl (stl (stl s)))"
  by (simp_all add: numeral_eq_Suc sdrop_stl)

lemma init_step_eq:
  "init_step j g s =
     (g\<lparr>g_note := (g_note g)[j := of_nat (s !! 0 mod 12)],
        g_octave := (g_octave g)[j := of_nat (s !! 1 mod 4)],
        g_waveform := (g_waveform g)[j := of_nat (s !! 2 mod 4)],
        g_gate := (g_gate g)[j := of_nat (s !! 3 mod 2)]\<rparr>, sdrop 4 s)"
  unfolding init_positions
  by (simp add: init_step_def random_def NUM_NOTES_def)

lemma init_steps_eq:
  "n = NUM_STEPS - j \<Longrightarrow> j \<le> NUM_STEPS \<Longrightarrow> wf_genome g \<Longrightarrow>
     snd (init_steps j g s) = sdrop (4 * n) s \<and>
     wf_genome (fst (init_steps j g s)) \<and>
     (\<forall>k<NUM_STEPS.
        g_note (fst (init_steps j g s)) ! k
          = (if k < j then g_note g ! k else of_nat (s !! (4 * (k - j) + 0) mod 12)) \<and>
        g_octave (fst (init_steps j g s)) ! k
          = (if k < j then g_octave g ! k else of_nat (s !! (4 * (k - j) + 1) mod 4)) \<and>
        g_waveform (fst (init_steps j g s)) ! k
          = (if k < j then g_waveform g ! k else of_nat (s !! (4 * (k - j) + 2) mod 4)) \<and>
        g_gate (fst (init_steps j g s)) ! k
          = (if k < j then g_gate g ! k else of_nat (s !! (4 * (k - j) + 3) mod 2)))"
proof (induction n arbitrary: j g s)
  case 0
  then show ?case by (simp add: init_steps.simps)
next
  case (Suc n)
  then have j: "j < NUM_STEPS" and n: "n = NUM_STEPS - (j + 1)" by simp_all
  define n0 :: byte where "n0 = of_nat (s !! 0 mod 12)"
  define n1 :: byte where "n1 = of_nat (s !! 1 mod 4)"
  define n2 :: byte where "n2 = of_nat (s !! 2 mod 4)"
  define n3 :: byte where "n3 = of_nat (s !! 3 mod 2)"
  define g1 where "g1 = g\<lparr>g_note := (g_note g)[j := n0],
        g_octave := (g_octave g)[j := n1],
        g_waveform := (g_waveform g)[j := n2],
        g_gate := (g_gate g)[j := n3]\<rparr>"
  define r where "r = fst (init_steps (j + 1) g1 (sdrop 4 s))"
  have fields: "g_note g1 = (g_note g)[j := n0]" "g_octave g1 = (g_octave g)[j := n1]"
    "g_waveform g1 = (g_waveform g)[j := n2]" "g_gate g1 = (g_gate g)[j := n3]"
    by (simp_all add: g1_def)
  have step: "init_steps j g s = init_steps (j + 1) g1 (sdrop 4 s)"
    using j by (subst init_steps.simps) (simp add: init_step_eq g1_def n0_def n1_def n2_def n3_def)
  have wf1: "wf_genome g1"
    using Suc.prems(3) by (simp add: g1_def wf_genome_def)
  have len: "j < length (g_note g)" "j < length (g_octave g)" "j < length (g_waveform g)"
    "j < length (g_gate g)"
    using Suc.prems(3) j by (simp_all add: wf_genome_def)
  have j1: "j + 1 \<le> NUM_STEPS" using j by simp
  note IH = Suc.IH [OF n j1 wf1, of "sdrop 4 s", folded r_def, unfolded fields]
  have ih: "snd (init_steps (j + 1) g1 (sdrop 4 s)) = sdrop (4 * n) (sdrop 4 s)"
    "wf_genome r"
    "\<And>k. k < NUM_STEPS \<Longrightarrow>
        g_note r ! k = (if k < j + 1 then (g_note g)[j := n0] ! k
                        else of_nat (sdrop 4 s !! (4 * (k - (j + 1)) + 0) mod 12))"
    "\<And>k. k < NUM_STEPS \<Longrightarrow>
        g_octave r ! k = (if k < j + 1 then (g_octave g)[j := n1] ! k
                        else of_nat (sdrop 4 s !! (4 * (k - (j + 1)) + 1) mod 4))"
    "\<And>k. k < NUM_STEPS \<Longrightarrow>
        g_waveform r ! k = (if k < j + 1 then (g_waveform g)[j := n2] ! k
                        else of_nat (sdrop 4 s !! (4 * (k - (j + 1)) + 2) mod 4))"
    "\<And>k. k < NUM_STEPS \<Longrightarrow>
        g_gate r ! k = (if k < j + 1 then (g_gate g)[j := n3] ! k
                        else of_nat (sdrop 4 s !! (4 * (k - (j + 1)) + 3) mod 2))"
    using IH by blast+
  have a: "snd (init_steps j g s) = sdrop (4 * Suc n) s"
    unfolding step ih(1) by (simp add: add.commute)
  have b: "wf_genome (fst (init_steps j g s))"
    unfolding step using ih(2) by (simp add: r_def)
  have c: "g_note r ! k = (if k < j then g_note g ! k else of_nat (s !! (4 * (k - j) + 0) mod 12))"
    if "k < NUM_STEPS" for k
    by (rule shifted_update [where f = "\<lambda>m. of_nat (sdrop 4 s !! (4 * m + 0) mod 12)"
          and f' = "\<lambda>m. of_nat (s !! (4 * m + 0) mod 12)" and v = n0,
          OF len(1) ih(3) [OF that]])
      (simp_all add: sdrop_snth n0_def init_positions(1-3))
  have d: "g_octave r ! k = (if k < j then g_octave g ! k else of_nat (s !! (4 * (k - j) + 1) mod 4))"
    if "k < NUM_STEPS" for k
    by (rule shifted_update [where f = "\<lambda>m. of_nat (sdrop 4 s !! (4 * m + 1) mod 4)"
          and f' = "\<lambda>m. of_nat (s !! (4 * m + 1) mod 4)" and v = n1,
          OF len(2) ih(4) [OF that]])
      (simp_all add: sdrop_snth n1_def init_positions(1-3))
  have e: "g_waveform r ! k = (if k < j then g_waveform g ! k else of_nat (s !! (4 * (k - j) + 2) mod 4))"
    if "k < NUM_STEPS" for k
    by (rule shifted_update [where f = "\<lambda>m. of_nat (sdrop 4 s !! (4 * m + 2) mod 4)"
          and f' = "\<lambda>m. of_nat (s !! (4 * m + 2) mod 4)" and v = n2,
          OF len(3) ih(5) [OF that]])
      (simp_all add: sdrop_snth n2_def init_positions(1-3))
  have f: "g_gate r ! k = (if k < j then g_gate g ! k else of_nat (s !! (4 * (k - j) + 3) mod 2))"
    if "k < NUM_STEPS" for k
    by (rule shifted_update [where f = "\<lambda>m. of_nat (sdrop 4 s !! (4 * m + 3) mod 2)"
          and f' = "\<lambda>m. of_nat (s !! (4 * m + 3) mod 2)" and v = n3,
          OF len(4) ih(6) [OF that]])
      (simp_all add: sdrop_snth n3_def init_positions(1-3))
  show ?case
    using a b c d e f unfolding step r_def [symmetric] by blast
qed

lemma list_all_update: "list_all P xs \<Longrightarrow> P v \<Longrightarrow> list_all P (xs[j := v])"
  using set_update_subset_insert [of xs j v] by (auto simp: list_all_iff)

lemma initPopulation_loop_eq:
  "n = POP_SIZE - i \<Longrightarrow> i \<le> POP_SIZE \<Longrightarrow> wf_population pop \<Longrightarrow>
     wf_population (fst (initPopulation_loop i pop s)) \<and>
     (\<forall>k<POP_SIZE.
        fst (initPopulation_loop i pop s) ! k
          = (if k < i then pop ! k
             else fst (init_steps 0 (pop ! k) (sdrop (4 * NUM_STEPS * (k - i)) s))))"
proof (induction n arbitrary: i pop s)
  case 0
  then show ?case by (simp add: initPopulation_loop.simps)
next
  case (Suc n)
  then have i: "i < POP_SIZE" and n: "n = POP_SIZE - (i + 1)" by simp_all
  define g where "g = fst (init_steps 0 (pop ! i) s)"
  define r where "r = fst (initPopulation_loop (i + 1) (pop[i := g]) (sdrop (4 * NUM_STEPS) s))"
  have len: "i < length pop" using Suc.prems(3) i by (simp add: wf_population_def)
  have wfi: "wf_genome (pop ! i)"
    using Suc.prems(3) i by (simp add: wf_population_def list_all_length)
  from init_steps_eq [OF refl _ wfi, of 0 s]
  have g: "init_steps 0 (pop ! i) s = (g, sdrop (4 * NUM_STEPS) s)" "wf_genome g"
    by (simp_all add: g_def prod_eq_iff)
  have step: "initPopulation_loop i pop s
      = initPopulation_loop (i + 1) (pop[i := g]) (sdrop (4 * NUM_STEPS) s)"
    using i by (subst initPopulation_loop.simps) (simp add: g(1))
  have wf1: "wf_population (pop[i := g])"
    using Suc.prems(3) g(2) by (simp add: wf_population_def list_all_update)
  from Suc.IH [OF n _ wf1, of "sdrop (4 * NUM_STEPS) s"] i
  have ih: "wf_population r"
    "\<And>k. k < POP_SIZE \<Longrightarrow> r ! k
          = (if k < i + 1 then pop[i := g] ! k
             else fst (init_steps 0 (pop[i := g] ! k)
                    (sdrop (4 * NUM_STEPS * (k - (i + 1))) (sdrop (4 * NUM_STEPS) s))))"
    by (simp_all add: r_def)
  have "r ! k = (if k < i then pop ! k
             else fst (init_steps 0 (pop ! k) (sdrop (4 * NUM_STEPS * (k - i)) s)))"
    if k: "k < POP_SIZE" for k
  proof (cases "k < i" "k = i" rule: case_split [case_product case_split])
    case True_True
    then show ?thesis by simp
  next
    case True_False
    with ih(2) [OF k] show ?thesis by simp
  next
    case False_True
    with ih(2) [OF k] len show ?thesis by (simp add: g_def)
  next
    case False_False
    then have "k - i = Suc (k - (i + 1))" by arith
    then have "4 * NUM_STEPS + 4 * NUM_STEPS * (k - (i + 1)) = 4 * NUM_STEPS * (k - i)"
      by simp
    with False_False ih(2) [OF k] show ?thesis by simp
  qed
  with ih(1) show ?case unfolding step r_def [symmetric] by blast
qed

lemma initPopulation_fields:
  assumes wf: "wf_population (population st)" and i: "i < POP_SIZE" and j: "j < NUM_STEPS"
  shows "g_note (population (initPopulation st) ! i) ! j = of_nat (init_drawn (rng st) i j 0 mod 12)"
    and "g_octave (population (initPopulation st) ! i) ! j = of_nat (init_drawn (rng st) i j 1 mod 4)"
    and "g_waveform (population (initPopulation st) ! i) ! j = of_nat (init_drawn (rng st) i j 2 mod 4)"
    and "g_gate (population (initPopulation st) ! i) ! j = of_nat (init_drawn (rng st) i j 3 mod 2)"
proof -
  define r where "r = fst (initPopulation_loop 0 (population st) (rng st))"
  have p: "population (initPopulation st) = r"
    by (simp add: initPopulation_def split_beta r_def)
  from initPopulation_loop_eq [OF refl _ wf, of 0 "rng st"] i
  have r: "r ! i = fst (init_steps 0 (population st ! i) (sdrop (4 * NUM_STEPS * i) (rng st)))"
    by (simp add: r_def)
  have wfi: "wf_genome (population st ! i)"
    using wf i by (simp add: wf_population_def list_all_length)
  have pos: "4 * NUM_STEPS * i + (4 * j + k) = 4 * (NUM_STEPS * i + j) + k" for k
    by (simp add: algebra_simps)
  have q: "sdrop (4 * NUM_STEPS * i) (rng st) !! (4 * (j - 0) + k) = init_drawn (rng st) i j k" for k
    by (simp only: init_drawn_def sdrop_snth pos diff_zero)
  from init_steps_eq [OF refl _ wfi, of 0 "sdrop (4 * NUM_STEPS * i) (rng st)"] j
  have m: "g_note (r ! i) ! j
      = of_nat (sdrop (4 * NUM_STEPS * i) (rng st) !! (4 * (j - 0) + 0) mod 12)"
    "g_octave (r ! i) ! j
      = of_nat (sdrop (4 * NUM_STEPS * i) (rng st) !! (4 * (j - 0) + 1) mod 4)"
    "g_waveform (r ! i) ! j
      = of_nat (sdrop (4 * NUM_STEPS * i) (rng st) !! (4 * (j - 0) + 2) mod 4)"
    "g_gate (r ! i) ! j
      = of_nat (sdrop (4 * NUM_STEPS * i) (rng st) !! (4 * (j - 0) + 3) mod 2)"
    unfolding r by simp_all
  show "g_note (population (initPopulation st) ! i) ! j = of_nat (init_drawn (rng st) i j 0 mod 12)"
    and "g_octave (population (initPopulation st) ! i) ! j = of_nat (init_drawn (rng st) i j 1 mod 4)"
    and "g_waveform (population (initPopulation st) ! i) ! j = of_nat (init_drawn (rng st) i j 2 mod 4)"
    and "g_gate (population (initPopulation st) ! i) ! j = of_nat (init_drawn (rng st) i j 3 mod 2)"
    unfolding p using m by (simp_all only: q)
qed

lemma example_cycle_nth:
  assumes "k < 257"
  shows "cycle example_draws !! k = example_draws ! k"
proof -
  have ne: "example_draws \<noteq> []" by (simp add: example_draws_def)
  have "cycle example_draws !! k = (example_draws @- cycle example_draws) !! k"
    by (subst cycle_decomp [OF ne]) (rule refl)
  also have "\<dots> = example_draws ! k"
    by (rule shift_snth_less) (simp add: example_draws_def assms)
  finally show ?thesis .
qed

lemma example_reset_gate:
  assumes "population st = replicate POP_SIZE g" "wf_genome g" "rng st = cycle example_draws"
  shows "g_gate (population (reset st) ! 0) ! 0 = 1"
proof -
  have wf: "wf_population (population st)"
    using assms(1,2) by (simp add: wf_population_def list_all_iff)
  have "init_drawn (rng st) 0 0 3 = 13"
    using example_cycle_nth [of 3] by (simp add: init_drawn_def assms(3) example_draws_def)
  with initPopulation_fields(4) [OF wf, of 0 0] show ?thesis
    by (simp add: reset_keeps POP_SIZE_def NUM_STEPS_def)
qed

subsection \<open>The best genome is the first maximum\<close>

lemma evaluatePopulation_selected:
  assumes "wf_population pop" "list_all in_domain pop"
  shows "\<exists>k<POP_SIZE. evaluatePopulation_loop pop 0 (b, - 9999) = (pop ! k, evaluateGenome (pop ! k)) \<and>
           (\<forall>j<k. evaluateGenome (pop ! j) < evaluateGenome (pop ! k)) \<and>
           (\<forall>j<POP_SIZE. evaluateGenome (pop ! j) \<le> evaluateGenome (pop ! k))"
proof -
  have "\<forall>k<POP_SIZE. evaluateGenome (pop ! k) = (\<lambda>k. evaluateGenome (pop ! k)) k \<and>
      - 9999 < (\<lambda>k. evaluateGenome (pop ! k)) k"
  proof (intro allI impI conjI)
    fix k assume "k < POP_SIZE"
    then have "wf_genome (pop ! k)" "in_domain (pop ! k)"
      using assms by (simp_all add: wf_population_def list_all_length)
    from evaluateGenome_bounds [OF this(2,1)] show "- 9999 < evaluateGenome (pop ! k)" by simp
  qed simp
  from evaluatePopulation_loop_selected [OF this, of 0 "(b, - 9999)"]
  have "selected (\<lambda>k. evaluateGenome (pop ! k)) pop POP_SIZE
      (evaluatePopulation_loop pop 0 (b, - 9999))"
    by (simp add: selected_def)
  then show ?thesis by (simp add: selected_def POP_SIZE_def)
qed

text \<open>
  C6. \<open>evaluatePopulation\<close> on a population of 100 genomes of 64 in-domain steps
  always returns; it changes nothing but \<open>best_genome\<close> and \<open>best_score\<close>; afterwards
  \<open>best_score\<close> is the greatest value of \<open>evaluateGenome\<close> over the members, and
  \<open>best_genome\<close> is the member of least index \<open>k\<close> whose score is that value: every
  earlier member scores strictly less.
\<close>

theorem evaluatePopulation_selects_first_maximum:
  assumes "wf_population (population st)" and "list_all in_domain (population st)"
  shows "\<exists>k<POP_SIZE.
           evaluatePopulation st
             = st\<lparr>best_genome := population st ! k,
                  best_score := evaluateGenome (population st ! k)\<rparr> \<and>
           best_score (evaluatePopulation st) = Max (evaluateGenome ` set (population st)) \<and>
           evaluateGenome (population st ! k) = Max (evaluateGenome ` set (population st)) \<and>
           (\<forall>j<k. evaluateGenome (population st ! j) < evaluateGenome (population st ! k))"
proof -
  from evaluatePopulation_selected [OF assms, of "best_genome st"]
  obtain k where k: "k < POP_SIZE"
    and e: "evaluatePopulation_loop (population st) 0 (best_genome st, - 9999)
              = (population st ! k, evaluateGenome (population st ! k))"
    and first: "\<forall>j<k. evaluateGenome (population st ! j) < evaluateGenome (population st ! k)"
    and great: "\<forall>j<POP_SIZE. evaluateGenome (population st ! j) \<le> evaluateGenome (population st ! k)"
    by blast
  have len: "length (population st) = POP_SIZE"
    using assms(1) by (simp add: wf_population_def)
  have st: "evaluatePopulation st
      = st\<lparr>best_genome := population st ! k, best_score := evaluateGenome (population st ! k)\<rparr>"
    by (simp add: evaluatePopulation_def e)
  have "Max (evaluateGenome ` set (population st)) = evaluateGenome (population st ! k)"
  proof (rule Max_eqI)
    show "finite (evaluateGenome ` set (population st))" by simp
    show "evaluateGenome (population st ! k) \<in> evaluateGenome ` set (population st)"
      using k len by simp
    fix y assume "y \<in> evaluateGenome ` set (population st)"
    then obtain j where "j < POP_SIZE" "y = evaluateGenome (population st ! j)"
      using len by (auto simp: in_set_conv_nth)
    with great show "y \<le> evaluateGenome (population st ! k)" by simp
  qed
  with st first k show ?thesis by (intro exI [of _ k]) simp
qed

lemma example_tie_facts:
  "wf_population (population example_tie_state)"
  "list_all in_domain (population example_tie_state)"
  "population example_tie_state ! 0 = example_mutated"
  "population example_tie_state ! 1 = example_gated"
  "population example_tie_state ! 2 = example_roots"
  using example_wf
  by (simp_all add: example_tie_state_def example_state_def wf_population_def POP_SIZE_def
      list_all_iff)

lemma example_gated_differs: "example_gated \<noteq> example_roots"
  by code_simp

theorem evaluatePopulation_selects_first_maximum_witness:
  "wf_population (population example_tie_state) \<and>
   list_all in_domain (population example_tie_state) \<and>
   evaluateGenome (population example_tie_state ! 0) = 613 \<and>
   evaluateGenome (population example_tie_state ! 1) = 624 \<and>
   evaluateGenome (population example_tie_state ! 2) = 624 \<and>
   population example_tie_state ! 1 \<noteq> population example_tie_state ! 2 \<and>
   evaluatePopulation example_tie_state
     = example_tie_state\<lparr>best_genome := population example_tie_state ! 1, best_score := 624\<rparr> \<and>
   best_genome (evaluatePopulation example_tie_state) = example_gated \<and>
   Max (evaluateGenome ` set (population example_tie_state)) = 624"
proof -
  note f = example_tie_facts
  from evaluatePopulation_selects_first_maximum [OF f(1,2)]
  obtain k where k: "k < POP_SIZE"
    and e: "evaluatePopulation example_tie_state
              = example_tie_state\<lparr>best_genome := population example_tie_state ! k,
                  best_score := evaluateGenome (population example_tie_state ! k)\<rparr>"
    and m: "evaluateGenome (population example_tie_state ! k)
              = Max (evaluateGenome ` set (population example_tie_state))"
    and first: "\<forall>j<k. evaluateGenome (population example_tie_state ! j)
                  < evaluateGenome (population example_tie_state ! k)"
    by blast
  have mx: "Max (evaluateGenome ` set (population example_tie_state)) = 624"
    by (simp add: example_tie_state_def example_state_def example_scores)
  have "k = 1"
  proof (rule ccontr)
    assume n: "k \<noteq> 1"
    show False
    proof (cases "k = 0")
      case True
      with m mx f(3) show False by (simp add: example_scores)
    next
      case False
      with n have "1 < k" by simp
      with first have "evaluateGenome (population example_tie_state ! 1)
          < evaluateGenome (population example_tie_state ! k)" by blast
      with m mx f(4) show False by (simp add: example_scores)
    qed
  qed
  with e m mx f example_gated_differs show ?thesis
    by (simp add: example_scores)
qed

subsection \<open>The transition taken at a wrap\<close>

text \<open>
  C9. At a wrap of the step counter at most one transition fires. With the like flag
  set, whatever the dislike flag, the engine after the step is the engine after
  \<open>reinforce\<close> alone: \<open>mutatePopulation\<close> and \<open>evaluatePopulation\<close> have run once on
  the state before the step and \<open>initPopulation\<close> has not run. With only the dislike flag
  set it is the engine after \<open>reset\<close> alone. With no flag set the engine is unchanged.
  The engine is the population, the best genome, the best score and the generator, so
  the draws consumed are those of the one transition.
\<close>

theorem wrap_fires_one_transition:
  assumes "current_step st + 1 = NUM_STEPS"
  shows "(like_pressed st \<longrightarrow> engine (tick t r st) = engine (reinforce st)) \<and>
         (\<not> like_pressed st \<and> dislike_pressed st \<longrightarrow> engine (tick t r st) = engine (reset st)) \<and>
         (\<not> like_pressed st \<and> \<not> dislike_pressed st \<longrightarrow> engine (tick t r st) = engine st)"
  using tick_wrap_engine [OF assms] .

lemma example_state_fields:
  "current_step example_state + 1 = NUM_STEPS"
  "like_pressed example_state" "dislike_pressed example_state"
  "population example_state = replicate POP_SIZE example_roots"
  "rng example_state = cycle example_draws"
  by (simp_all add: example_state_def NUM_STEPS_def POP_SIZE_def)

lemma example_gates:
  "g_gate example_roots ! 0 = 0" "g_gate example_mutated ! 0 = 0"
  by code_simp+

theorem wrap_fires_one_transition_witness:
  "current_step example_state + 1 = NUM_STEPS \<and>
   like_pressed example_state \<and> dislike_pressed example_state \<and>
   engine (tick 0 0 example_state) = engine (reinforce example_state) \<and>
   population (tick 0 0 example_state) = replicate POP_SIZE example_mutated \<and>
   best_score (tick 0 0 example_state) = 613 \<and>
   g_gate (population (tick 0 0 example_state) ! 0) ! 0 = 0 \<and>
   g_gate (population (reset example_state) ! 0) ! 0 = 1 \<and>
   population (tick 0 0 example_state) \<noteq> population (reset example_state) \<and>
   engine (tick 0 0 example_state) \<noteq> engine (reset example_state) \<and>
   engine (tick 0 0 (example_state\<lparr>like_pressed := False\<rparr>))
     = engine (reset (example_state\<lparr>like_pressed := False\<rparr>)) \<and>
   g_gate (population (tick 0 0 (example_state\<lparr>like_pressed := False\<rparr>)) ! 0) ! 0 = 1 \<and>
   engine (tick 0 0 (example_state\<lparr>like_pressed := False, dislike_pressed := False\<rparr>))
     = engine example_state"
proof -
  note f = example_state_fields
  have a: "engine (tick 0 0 example_state) = engine (reinforce example_state)"
    using wrap_fires_one_transition [of example_state 0 0] f by simp
  have b: "population (tick 0 0 example_state) = replicate POP_SIZE example_mutated"
    "best_score (tick 0 0 example_state) = 613"
    by (simp_all add: tick_example)
  have c: "g_gate (population (reset example_state) ! 0) ! 0 = 1"
    by (rule example_reset_gate [OF f(4) example_wf(1) f(5)])
  have d: "g_gate (population (tick 0 0 example_state) ! 0) ! 0 = 0"
    by (simp add: b POP_SIZE_def example_gates)
  have ne: "population (tick 0 0 example_state) \<noteq> population (reset example_state)"
    using c d by auto
  then have ne': "engine (tick 0 0 example_state) \<noteq> engine (reset example_state)"
    by (simp add: engine_def)
  let ?d = "example_state\<lparr>like_pressed := False\<rparr>"
  have e: "engine (tick 0 0 ?d) = engine (reset ?d)"
    using wrap_fires_one_transition [of ?d 0 0] f by simp
  have "g_gate (population (reset ?d) ! 0) ! 0 = 1"
    by (rule example_reset_gate [OF _ example_wf(1)]) (simp_all add: f)
  with e have g: "g_gate (population (tick 0 0 ?d) ! 0) ! 0 = 1"
    by (simp add: engine_def)
  let ?n = "example_state\<lparr>like_pressed := False, dislike_pressed := False\<rparr>"
  have "engine (tick 0 0 ?n) = engine ?n"
    using wrap_fires_one_transition [of ?n 0 0] f by simp
  then have h: "engine (tick 0 0 ?n) = engine example_state"
    by (simp add: engine_def)
  from f(1,2,3) a b d c ne ne' e g h show ?thesis by blast
qed

subsection \<open>The flags after a wrap\<close>

lemma ticks_engine_cong:
  assumes "engine st = engine st'"
  shows "engine (reset st) = engine (reset st')"
  using assms by (intro reset_engine) (simp_all add: engine_def)

text \<open>
  C4, as the code has it. At a wrap with the like flag latched \<open>reinforce\<close> fires, the
  like flag is cleared and the dislike flag keeps its value. At a wrap with only the
  dislike flag latched \<open>reset\<close> fires and both flags are clear afterwards. So when both
  flags are latched at a wrap, the dislike flag survives it: after the 63 further steps
  \<open>ins\<close> of the next traversal, in which no button is pressed and the engine does not
  change, the step that wraps again fires \<open>reset\<close> on the population that \<open>reinforce\<close>
  left, and only then are both flags clear.
\<close>

theorem wrap_clears_consumed_flag:
  assumes "current_step st + 1 = NUM_STEPS"
  shows "(like_pressed st \<longrightarrow>
            engine (tick t r st) = engine (reinforce st) \<and>
            \<not> like_pressed (tick t r st) \<and>
            dislike_pressed (tick t r st) = dislike_pressed st) \<and>
         (\<not> like_pressed st \<and> dislike_pressed st \<longrightarrow>
            engine (tick t r st) = engine (reset st) \<and>
            \<not> like_pressed (tick t r st) \<and> \<not> dislike_pressed (tick t r st)) \<and>
         (like_pressed st \<and> dislike_pressed st \<and> length ins + 1 = NUM_STEPS \<longrightarrow>
            current_step (ticks ins (tick t r st)) + 1 = NUM_STEPS \<and>
            engine (ticks ins (tick t r st)) = engine (reinforce st) \<and>
            \<not> like_pressed (ticks ins (tick t r st)) \<and>
            dislike_pressed (ticks ins (tick t r st)) \<and>
            engine (tick t' r' (ticks ins (tick t r st))) = engine (reset (reinforce st)) \<and>
            \<not> like_pressed (tick t' r' (ticks ins (tick t r st))) \<and>
            \<not> dislike_pressed (tick t' r' (ticks ins (tick t r st))))"
proof (intro conjI impI)
  note e = tick_wrap_engine [OF assms, of t r]
  note fl = tick_wrap_flags [OF assms, of t r]
  {
    assume "like_pressed st"
    with e fl show "engine (tick t r st) = engine (reinforce st)"
      and "\<not> like_pressed (tick t r st)"
      and "dislike_pressed (tick t r st) = dislike_pressed st"
      by simp_all
  }
  {
    assume "\<not> like_pressed st \<and> dislike_pressed st"
    with e fl show "engine (tick t r st) = engine (reset st)"
      and "\<not> like_pressed (tick t r st)"
      and "\<not> dislike_pressed (tick t r st)"
      by simp_all
  }
  assume b: "like_pressed st \<and> dislike_pressed st \<and> length ins + 1 = NUM_STEPS"
  define st1 where "st1 = tick t r st"
  define st2 where "st2 = ticks ins st1"
  from b e fl have one: "engine st1 = engine (reinforce st)" "current_step st1 = 0"
    "\<not> like_pressed st1" "dislike_pressed st1"
    by (simp_all add: st1_def)
  from b one(2) have "current_step st1 + length ins < NUM_STEPS" by simp
  from ticks_no_wrap [OF this] one b
  have two: "engine st2 = engine (reinforce st)" "current_step st2 + 1 = NUM_STEPS"
    "\<not> like_pressed st2" "dislike_pressed st2"
    by (simp_all add: st2_def)
  from tick_wrap_engine [OF two(2), of t' r'] two(3,4)
  have "engine (tick t' r' st2) = engine (reset st2)" by simp
  also have "\<dots> = engine (reset (reinforce st))"
    by (rule ticks_engine_cong) (rule two(1))
  finally have three: "engine (tick t' r' st2) = engine (reset (reinforce st))" .
  from tick_wrap_flags [OF two(2), of t' r'] two(3)
  have four: "\<not> like_pressed (tick t' r' st2)" "\<not> dislike_pressed (tick t' r' st2)"
    by simp_all
  show "current_step (ticks ins (tick t r st)) + 1 = NUM_STEPS"
    and "engine (ticks ins (tick t r st)) = engine (reinforce st)"
    and "\<not> like_pressed (ticks ins (tick t r st))"
    and "dislike_pressed (ticks ins (tick t r st))"
    and "engine (tick t' r' (ticks ins (tick t r st))) = engine (reset (reinforce st))"
    and "\<not> like_pressed (tick t' r' (ticks ins (tick t r st)))"
    and "\<not> dislike_pressed (tick t' r' (ticks ins (tick t r st)))"
    using two three four unfolding st2_def st1_def by simp_all
qed

theorem wrap_clears_consumed_flag_witness:
  "current_step example_state + 1 = NUM_STEPS \<and>
   like_pressed example_state \<and> dislike_pressed example_state \<and>
   length (replicate 63 (0 :: 32 word, 0 :: int)) + 1 = NUM_STEPS \<and>
   engine (tick 0 0 example_state) = engine (reinforce example_state) \<and>
   best_score (tick 0 0 example_state) = 613 \<and>
   \<not> like_pressed (tick 0 0 example_state) \<and>
   dislike_pressed (tick 0 0 example_state) \<and>
   g_gate (population (ticks (replicate 63 (0, 0)) (tick 0 0 example_state)) ! 0) ! 0 = 0 \<and>
   dislike_pressed (ticks (replicate 63 (0, 0)) (tick 0 0 example_state)) \<and>
   engine (tick 0 0 (ticks (replicate 63 (0, 0)) (tick 0 0 example_state)))
     = engine (reset (reinforce example_state)) \<and>
   g_gate (population (tick 0 0 (ticks (replicate 63 (0, 0)) (tick 0 0 example_state))) ! 0) ! 0 = 1 \<and>
   \<not> like_pressed (tick 0 0 (ticks (replicate 63 (0, 0)) (tick 0 0 example_state))) \<and>
   \<not> dislike_pressed (tick 0 0 (ticks (replicate 63 (0, 0)) (tick 0 0 example_state))) \<and>
   engine (tick 0 0 (example_state\<lparr>like_pressed := False\<rparr>))
     = engine (reset (example_state\<lparr>like_pressed := False\<rparr>)) \<and>
   \<not> like_pressed (tick 0 0 (example_state\<lparr>like_pressed := False\<rparr>)) \<and>
   \<not> dislike_pressed (tick 0 0 (example_state\<lparr>like_pressed := False\<rparr>))"
proof -
  note f = example_state_fields
  define ins where "ins = replicate 63 (0 :: 32 word, 0 :: int)"
  have len: "length ins + 1 = NUM_STEPS" by (simp add: ins_def NUM_STEPS_def)
  note m = wrap_clears_consumed_flag [OF f(1), of 0 0 ins 0 0]
  from m f(2,3) len
  have a: "engine (tick 0 0 example_state) = engine (reinforce example_state)"
    "\<not> like_pressed (tick 0 0 example_state)"
    "dislike_pressed (tick 0 0 example_state)"
    "engine (ticks ins (tick 0 0 example_state)) = engine (reinforce example_state)"
    "dislike_pressed (ticks ins (tick 0 0 example_state))"
    "engine (tick 0 0 (ticks ins (tick 0 0 example_state))) = engine (reset (reinforce example_state))"
    "\<not> like_pressed (tick 0 0 (ticks ins (tick 0 0 example_state)))"
    "\<not> dislike_pressed (tick 0 0 (ticks ins (tick 0 0 example_state)))"
    by simp_all
  have r: "reinforce example_state = example_state\<lparr>population := replicate POP_SIZE example_mutated,
            rng := cycle example_draws, best_genome := example_mutated, best_score := 613\<rparr>"
    by (rule reinforce_example [OF f(4,5)])
  have b: "best_score (tick 0 0 example_state) = 613" by (simp add: tick_example)
  have "population (ticks ins (tick 0 0 example_state)) = replicate POP_SIZE example_mutated"
    using a(4) by (simp add: engine_def r)
  then have c: "g_gate (population (ticks ins (tick 0 0 example_state)) ! 0) ! 0 = 0"
    by (simp add: POP_SIZE_def example_gates)
  have "g_gate (population (reset (reinforce example_state)) ! 0) ! 0 = 1"
    by (rule example_reset_gate [OF _ example_wf(3)]) (simp_all add: r)
  with a(6) have d: "g_gate (population (tick 0 0 (ticks ins (tick 0 0 example_state))) ! 0) ! 0 = 1"
    by (simp add: engine_def)
  let ?d = "example_state\<lparr>like_pressed := False\<rparr>"
  from wrap_clears_consumed_flag [of ?d 0 0 "[]" 0 0] f
  have e: "engine (tick 0 0 ?d) = engine (reset ?d)"
    "\<not> like_pressed (tick 0 0 ?d)" "\<not> dislike_pressed (tick 0 0 ?d)"
    by simp_all
  from f(1,2,3) len a b c d e show ?thesis
    unfolding ins_def by blast
qed

subsection \<open>The domains of the fields\<close>

lemma random_less: "0 < n \<Longrightarrow> fst (random n s) < n"
  by (simp add: random_def)

lemma unat_of_nat_small: "v < n \<Longrightarrow> n \<le> 256 \<Longrightarrow> unat (of_nat v :: byte) < n"
  by (simp add: unat_of_nat)

lemma init_step_wf: "wf_genome g \<Longrightarrow> wf_genome (fst (init_step j g s))"
  by (simp add: init_step_def wf_genome_def Let_def split: prod.splits)

lemma init_step_dom_upto:
  assumes "wf_genome g" "j < NUM_STEPS" "dom_upto j g"
  shows "dom_upto (j + 1) (fst (init_step j g s))"
proof -
  obtain v1 s1 where r1: "random NUM_NOTES s = (v1, s1)" by (cases "random NUM_NOTES s")
  obtain v2 s2 where r2: "random 4 s1 = (v2, s2)" by (cases "random 4 s1")
  obtain v3 s3 where r3: "random 4 s2 = (v3, s3)" by (cases "random 4 s2")
  obtain v4 s4 where r4: "random 2 s3 = (v4, s4)" by (cases "random 2 s3")
  have v: "v1 < 12" "v2 < 4" "v3 < 4" "v4 < 2"
    using random_less [of NUM_NOTES s] random_less [of 4 s1] random_less [of 4 s2]
      random_less [of 2 s3] r1 r2 r3 r4
    by (simp_all add: NUM_NOTES_def)
  have u: "unat (of_nat v1 :: byte) < 12" "unat (of_nat v2 :: byte) < 4"
    "unat (of_nat v3 :: byte) < 4" "unat (of_nat v4 :: byte) < 2"
    using v by (simp_all add: unat_of_nat_small)
  show ?thesis
    using assms u
    by (auto simp: init_step_def r1 r2 r3 r4 dom_upto_def wf_genome_def nth_list_update less_Suc_eq)
qed

lemma init_steps_dom:
  "wf_genome g \<Longrightarrow> j \<le> NUM_STEPS \<Longrightarrow> dom_upto j g \<Longrightarrow>
     wf_genome (fst (init_steps j g s)) \<and> dom_upto NUM_STEPS (fst (init_steps j g s))"
proof (induction j g s rule: init_steps.induct)
  case (1 j g s)
  show ?case
  proof (cases "j < NUM_STEPS")
    case False
    with "1.prems" show ?thesis by (simp add: init_steps.simps)
  next
    case True
    obtain g' s' where st: "init_step j g s = (g', s')" by (cases "init_step j g s")
    have "wf_genome g'" "dom_upto (j + 1) g'"
      using init_step_wf [OF "1.prems"(1), of j s] init_step_dom_upto [OF "1.prems"(1) True "1.prems"(3), of s]
      by (simp_all add: st)
    from "1.IH" [OF True st [symmetric] this(1) _ this(2)] True
    show ?thesis by (subst (1 2) init_steps.simps) (simp add: st)
  qed
qed

lemma dom_upto_in_domain: "wf_genome g \<Longrightarrow> dom_upto NUM_STEPS g \<Longrightarrow> in_domain g"
  by (simp add: wf_genome_def dom_upto_def in_domain_def list_all_length)

lemma init_steps_in_domain:
  "wf_genome g \<Longrightarrow> wf_genome (fst (init_steps 0 g s)) \<and> in_domain (fst (init_steps 0 g s))"
  using init_steps_dom [of g 0 s] by (simp add: dom_upto_in_domain dom_upto_def)

lemma initPopulation_loop_dom:
  "length pop = POP_SIZE \<Longrightarrow> list_all wf_genome pop \<Longrightarrow> i \<le> POP_SIZE \<Longrightarrow>
   \<forall>k<i. in_domain (pop ! k) \<Longrightarrow>
     wf_population (fst (initPopulation_loop i pop s)) \<and>
     list_all in_domain (fst (initPopulation_loop i pop s))"
proof (induction i pop s rule: initPopulation_loop.induct)
  case (1 i pop s)
  show ?case
  proof (cases "i < POP_SIZE")
    case False
    with "1.prems" show ?thesis
      by (simp add: initPopulation_loop.simps wf_population_def list_all_length)
  next
    case True
    obtain g s' where st: "init_steps 0 (pop ! i) s = (g, s')" by (cases "init_steps 0 (pop ! i) s")
    have "wf_genome (pop ! i)" using "1.prems"(1,2) True by (simp add: list_all_length)
    from init_steps_in_domain [OF this, of s] have g: "wf_genome g" "in_domain g"
      by (simp_all add: st)
    have a: "length (pop[i := g]) = POP_SIZE" using "1.prems"(1) by simp
    have b: "list_all wf_genome (pop[i := g])"
      using "1.prems"(2) g(1) set_update_subset_insert [of pop i g] by (auto simp: list_all_iff)
    have c: "\<forall>k<i + 1. in_domain (pop[i := g] ! k)"
      using "1.prems"(1,4) g(2) True by (auto simp: nth_list_update less_Suc_eq)
    from "1.IH" [OF True st [symmetric] a b _ c] True
    show ?thesis by (subst (1 2) initPopulation_loop.simps) (simp add: st)
  qed
qed

lemma mutate_fields_dom:
  assumes "in_domain g"
  shows "in_domain (fst (mutate_note rate j g s))" "in_domain (fst (mutate_octave rate j g s))"
    "in_domain (fst (mutate_waveform rate j g s))" "in_domain (fst (mutate_gate rate j g s))"
proof -
  have u: "\<And>x. unat (of_nat (x mod 12) :: byte) < 12" "\<And>x. unat (of_nat (x mod 4) :: byte) < 4"
    "\<And>x. unat (of_nat (x mod 2) :: byte) < 2"
    by (simp_all add: unat_of_nat)
  show "in_domain (fst (mutate_note rate j g s))"
    using assms u(1) by (simp add: mutate_note_def random_def NUM_NOTES_def in_domain_def list_all_update)
  show "in_domain (fst (mutate_octave rate j g s))"
    using assms u(2) by (simp add: mutate_octave_def random_def in_domain_def list_all_update)
  show "in_domain (fst (mutate_waveform rate j g s))"
    using assms u(2) by (simp add: mutate_waveform_def random_def in_domain_def list_all_update)
  show "in_domain (fst (mutate_gate rate j g s))"
    using assms u(3) by (simp add: mutate_gate_def random_def in_domain_def list_all_update)
qed

lemma mutate_fields_wf:
  assumes "wf_genome g"
  shows "wf_genome (fst (mutate_note rate j g s))" "wf_genome (fst (mutate_octave rate j g s))"
    "wf_genome (fst (mutate_waveform rate j g s))" "wf_genome (fst (mutate_gate rate j g s))"
  using assms
  by (simp_all add: mutate_note_def mutate_octave_def mutate_waveform_def mutate_gate_def
      random_def wf_genome_def)

lemma mutate_step_dom: "in_domain g \<Longrightarrow> in_domain (fst (mutate_step rate j g s))"
  by (simp add: mutate_step_def split_beta mutate_fields_dom)

lemma mutate_step_wf: "wf_genome g \<Longrightarrow> wf_genome (fst (mutate_step rate j g s))"
  by (simp add: mutate_step_def split_beta mutate_fields_wf)

lemma mutate_steps_dom:
  "in_domain g \<Longrightarrow> wf_genome g \<Longrightarrow>
     in_domain (fst (mutate_steps rate j g s)) \<and> wf_genome (fst (mutate_steps rate j g s))"
proof (induction rate j g s rule: mutate_steps.induct)
  case (1 rate j g s)
  show ?case
  proof (cases "j < NUM_STEPS")
    case False
    with "1.prems" show ?thesis by (simp add: mutate_steps.simps)
  next
    case True
    obtain g' s' where st: "mutate_step rate j g s = (g', s')" by (cases "mutate_step rate j g s")
    have "in_domain g'" "wf_genome g'"
      using mutate_step_dom [OF "1.prems"(1), of rate j s] mutate_step_wf [OF "1.prems"(2), of rate j s]
      by (simp_all add: st)
    from "1.IH" [OF True st [symmetric] this] True
    show ?thesis by (subst (1 2) mutate_steps.simps) (simp add: st)
  qed
qed

lemma mutatePopulation_loop_dom:
  "wf_population pop \<Longrightarrow> list_all in_domain pop \<Longrightarrow>
     wf_population (fst (mutatePopulation_loop rate i pop s)) \<and>
     list_all in_domain (fst (mutatePopulation_loop rate i pop s))"
proof (induction rate i pop s rule: mutatePopulation_loop.induct)
  case (1 rate i pop s)
  show ?case
  proof (cases "i < POP_SIZE")
    case False
    with "1.prems" show ?thesis by (simp add: mutatePopulation_loop.simps)
  next
    case True
    obtain g s' where st: "mutate_steps rate 0 (pop ! i) s = (g, s')"
      by (cases "mutate_steps rate 0 (pop ! i) s")
    have "in_domain (pop ! i)" "wf_genome (pop ! i)"
      using "1.prems" True by (simp_all add: wf_population_def list_all_length)
    from mutate_steps_dom [OF this, of rate 0 s] have g: "in_domain g" "wf_genome g"
      by (simp_all add: st)
    have a: "wf_population (pop[i := g])"
      using "1.prems"(1) g(2) by (simp add: wf_population_def list_all_update)
    have b: "list_all in_domain (pop[i := g])"
      using "1.prems"(2) g(1) by (simp add: list_all_update)
    from "1.IH" [OF True st [symmetric] a b] True
    show ?thesis by (subst (1 2) mutatePopulation_loop.simps) (simp add: st)
  qed
qed

text \<open>
  C7. Both population operations keep every field in its domain: after
  \<open>initPopulation\<close> on the 100 genomes of the state, and after \<open>mutatePopulation\<close> on an
  in-domain population, every note is below 12, every octave and waveform below 4, and
  every gate below 2.
\<close>

theorem population_operations_stay_in_domain:
  "(wf_population (population st) \<longrightarrow>
      wf_population (population (initPopulation st)) \<and>
      list_all in_domain (population (initPopulation st))) \<and>
   (wf_population (population st) \<and> list_all in_domain (population st) \<longrightarrow>
      wf_population (population (mutatePopulation st)) \<and>
      list_all in_domain (population (mutatePopulation st)))"
proof (intro conjI impI)
  assume "wf_population (population st)"
  then have "wf_population (fst (initPopulation_loop 0 (population st) (rng st))) \<and>
     list_all in_domain (fst (initPopulation_loop 0 (population st) (rng st)))"
    by (intro initPopulation_loop_dom) (simp_all add: wf_population_def)
  then show "wf_population (population (initPopulation st))"
    and "list_all in_domain (population (initPopulation st))"
    by (simp_all add: initPopulation_def split_beta)
next
  assume "wf_population (population st) \<and> list_all in_domain (population st)"
  then have "wf_population (fst (mutatePopulation_loop MUT_RATE 0 (population st) (rng st))) \<and>
     list_all in_domain (fst (mutatePopulation_loop MUT_RATE 0 (population st) (rng st)))"
    by (intro mutatePopulation_loop_dom) simp_all
  then show "wf_population (population (mutatePopulation st))"
    and "list_all in_domain (population (mutatePopulation st))"
    by (simp_all add: mutatePopulation_def mutatePopulation_rate_def split_beta)
qed

theorem population_operations_stay_in_domain_witness:
  "wf_population (population example_state) \<and> list_all in_domain (population example_state) \<and>
   list_all in_domain (population (initPopulation example_state)) \<and>
   list_all in_domain (population (mutatePopulation example_state))"
  using population_operations_stay_in_domain [of example_state] example_state_wf
  by blast

subsection \<open>Mutation at the rates 0 and 1\<close>

lemma mutate_step_rate0: "fst (mutate_step 0 j g s) = g"
  by (simp add: mutate_step_def mutate_note_def mutate_octave_def mutate_waveform_def
      mutate_gate_def random_def)

lemma mutate_steps_rate0: "n = NUM_STEPS - j \<Longrightarrow> fst (mutate_steps 0 j g s) = g"
proof (induction n arbitrary: j s)
  case 0
  then show ?case by (simp add: mutate_steps.simps)
next
  case (Suc n)
  then have j: "j < NUM_STEPS" and n: "n = NUM_STEPS - (j + 1)" by simp_all
  obtain g' s' where st: "mutate_step 0 j g s = (g', s')" by (cases "mutate_step 0 j g s")
  with mutate_step_rate0 [of j g s] have "g' = g" by simp
  with Suc.IH [OF n, of s'] j st show ?case
    by (subst mutate_steps.simps) simp
qed

lemma mutatePopulation_loop_rate0:
  "n = POP_SIZE - i \<Longrightarrow> fst (mutatePopulation_loop 0 i pop s) = pop"
proof (induction n arbitrary: i s)
  case 0
  then show ?case by (simp add: mutatePopulation_loop.simps)
next
  case (Suc n)
  then have i: "i < POP_SIZE" and n: "n = POP_SIZE - (i + 1)" by simp_all
  obtain g s' where st: "mutate_steps 0 0 (pop ! i) s = (g, s')"
    by (cases "mutate_steps 0 0 (pop ! i) s")
  with mutate_steps_rate0 [of NUM_STEPS 0 "pop ! i" s] have "g = pop ! i" by simp
  with Suc.IH [OF n, of s'] i st show ?case
    by (subst mutatePopulation_loop.simps) simp
qed

lemma stream_positions:
  "s !! 1 = shd (stl s)" "s !! 3 = shd (stl (stl (stl s)))"
  "s !! 5 = shd (stl (stl (stl (stl (stl s)))))"
  "s !! 7 = shd (stl (stl (stl (stl (stl (stl (stl s)))))))"
  "sdrop 8 s = stl (stl (stl (stl (stl (stl (stl (stl s)))))))"
  by (simp_all add: numeral_eq_Suc sdrop_stl)

lemma mutate_step_rate1:
  "mutate_step 1 j g s =
     (g\<lparr>g_note := (g_note g)[j := of_nat (s !! 1 mod 12)],
        g_octave := (g_octave g)[j := of_nat (s !! 3 mod 4)],
        g_waveform := (g_waveform g)[j := of_nat (s !! 5 mod 4)],
        g_gate := (g_gate g)[j := of_nat (s !! 7 mod 2)]\<rparr>, sdrop 8 s)"
  unfolding stream_positions
  by (simp add: mutate_step_def mutate_note_def mutate_octave_def mutate_waveform_def
      mutate_gate_def random_def NUM_NOTES_def)

lemma mutate_steps_rate1:
  "n = NUM_STEPS - j \<Longrightarrow> j \<le> NUM_STEPS \<Longrightarrow> wf_genome g \<Longrightarrow>
     snd (mutate_steps 1 j g s) = sdrop (8 * n) s \<and>
     wf_genome (fst (mutate_steps 1 j g s)) \<and>
     (\<forall>k<NUM_STEPS.
        g_note (fst (mutate_steps 1 j g s)) ! k
          = (if k < j then g_note g ! k else of_nat (s !! (8 * (k - j) + 1) mod 12)) \<and>
        g_octave (fst (mutate_steps 1 j g s)) ! k
          = (if k < j then g_octave g ! k else of_nat (s !! (8 * (k - j) + 3) mod 4)) \<and>
        g_waveform (fst (mutate_steps 1 j g s)) ! k
          = (if k < j then g_waveform g ! k else of_nat (s !! (8 * (k - j) + 5) mod 4)) \<and>
        g_gate (fst (mutate_steps 1 j g s)) ! k
          = (if k < j then g_gate g ! k else of_nat (s !! (8 * (k - j) + 7) mod 2)))"
proof (induction n arbitrary: j g s)
  case 0
  then show ?case by (simp add: mutate_steps.simps)
next
  case (Suc n)
  then have j: "j < NUM_STEPS" and n: "n = NUM_STEPS - (j + 1)" by simp_all
  define g1 where "g1 = g\<lparr>g_note := (g_note g)[j := of_nat (s !! 1 mod 12)],
        g_octave := (g_octave g)[j := of_nat (s !! 3 mod 4)],
        g_waveform := (g_waveform g)[j := of_nat (s !! 5 mod 4)],
        g_gate := (g_gate g)[j := of_nat (s !! 7 mod 2)]\<rparr>"
  define r where "r = fst (mutate_steps 1 (j + 1) g1 (sdrop 8 s))"
  have step: "mutate_steps 1 j g s = mutate_steps 1 (j + 1) g1 (sdrop 8 s)"
    using j by (subst mutate_steps.simps) (simp add: mutate_step_rate1 g1_def)
  have wf1: "wf_genome g1"
    using Suc.prems(3) by (simp add: g1_def wf_genome_def)
  have len: "j < length (g_note g)" "j < length (g_octave g)" "j < length (g_waveform g)"
    "j < length (g_gate g)"
    using Suc.prems(3) j by (simp_all add: wf_genome_def)
  from Suc.IH [OF n _ wf1, of "sdrop 8 s"] j
  have ih: "snd (mutate_steps 1 (j + 1) g1 (sdrop 8 s)) = sdrop (8 * n) (sdrop 8 s)"
    "wf_genome r"
    "\<And>k. k < NUM_STEPS \<Longrightarrow>
        g_note r ! k = (if k < j + 1 then (g_note g)[j := of_nat (s !! 1 mod 12)] ! k
                        else of_nat (sdrop 8 s !! (8 * (k - (j + 1)) + 1) mod 12))"
    "\<And>k. k < NUM_STEPS \<Longrightarrow>
        g_octave r ! k = (if k < j + 1 then (g_octave g)[j := of_nat (s !! 3 mod 4)] ! k
                        else of_nat (sdrop 8 s !! (8 * (k - (j + 1)) + 3) mod 4))"
    "\<And>k. k < NUM_STEPS \<Longrightarrow>
        g_waveform r ! k = (if k < j + 1 then (g_waveform g)[j := of_nat (s !! 5 mod 4)] ! k
                        else of_nat (sdrop 8 s !! (8 * (k - (j + 1)) + 5) mod 4))"
    "\<And>k. k < NUM_STEPS \<Longrightarrow>
        g_gate r ! k = (if k < j + 1 then (g_gate g)[j := of_nat (s !! 7 mod 2)] ! k
                        else of_nat (sdrop 8 s !! (8 * (k - (j + 1)) + 7) mod 2))"
    by (simp_all add: r_def g1_def)
  have a: "snd (mutate_steps 1 j g s) = sdrop (8 * Suc n) s"
    unfolding step ih(1) by (simp add: add.commute)
  have b: "wf_genome (fst (mutate_steps 1 j g s))"
    unfolding step using ih(2) by (simp add: r_def)
  have c: "g_note r ! k = (if k < j then g_note g ! k else of_nat (s !! (8 * (k - j) + 1) mod 12))"
    if "k < NUM_STEPS" for k
    by (rule shifted_update [where f = "\<lambda>m. of_nat (sdrop 8 s !! (8 * m + 1) mod 12)"
          and f' = "\<lambda>m. of_nat (s !! (8 * m + 1) mod 12)", OF len(1)])
      (use ih(3) [OF that] in \<open>simp_all add: sdrop_snth\<close>)
  have d: "g_octave r ! k = (if k < j then g_octave g ! k else of_nat (s !! (8 * (k - j) + 3) mod 4))"
    if "k < NUM_STEPS" for k
    by (rule shifted_update [where f = "\<lambda>m. of_nat (sdrop 8 s !! (8 * m + 3) mod 4)"
          and f' = "\<lambda>m. of_nat (s !! (8 * m + 3) mod 4)", OF len(2)])
      (use ih(4) [OF that] in \<open>simp_all add: sdrop_snth\<close>)
  have e: "g_waveform r ! k = (if k < j then g_waveform g ! k else of_nat (s !! (8 * (k - j) + 5) mod 4))"
    if "k < NUM_STEPS" for k
    by (rule shifted_update [where f = "\<lambda>m. of_nat (sdrop 8 s !! (8 * m + 5) mod 4)"
          and f' = "\<lambda>m. of_nat (s !! (8 * m + 5) mod 4)", OF len(3)])
      (use ih(5) [OF that] in \<open>simp_all add: sdrop_snth\<close>)
  have f: "g_gate r ! k = (if k < j then g_gate g ! k else of_nat (s !! (8 * (k - j) + 7) mod 2))"
    if "k < NUM_STEPS" for k
    by (rule shifted_update [where f = "\<lambda>m. of_nat (sdrop 8 s !! (8 * m + 7) mod 2)"
          and f' = "\<lambda>m. of_nat (s !! (8 * m + 7) mod 2)", OF len(4)])
      (use ih(6) [OF that] in \<open>simp_all add: sdrop_snth\<close>)
  show ?case
    using a b c d e f unfolding step r_def [symmetric] by blast
qed

lemma mutatePopulation_loop_rate1:
  "n = POP_SIZE - i \<Longrightarrow> i \<le> POP_SIZE \<Longrightarrow> wf_population pop \<Longrightarrow>
     wf_population (fst (mutatePopulation_loop 1 i pop s)) \<and>
     (\<forall>k<POP_SIZE.
        fst (mutatePopulation_loop 1 i pop s) ! k
          = (if k < i then pop ! k
             else fst (mutate_steps 1 0 (pop ! k) (sdrop (8 * NUM_STEPS * (k - i)) s))))"
proof (induction n arbitrary: i pop s)
  case 0
  then show ?case by (simp add: mutatePopulation_loop.simps)
next
  case (Suc n)
  then have i: "i < POP_SIZE" and n: "n = POP_SIZE - (i + 1)" by simp_all
  define g where "g = fst (mutate_steps 1 0 (pop ! i) s)"
  define r where "r = fst (mutatePopulation_loop 1 (i + 1) (pop[i := g]) (sdrop (8 * NUM_STEPS) s))"
  have len: "i < length pop" using Suc.prems(3) i by (simp add: wf_population_def)
  have wfi: "wf_genome (pop ! i)"
    using Suc.prems(3) i by (simp add: wf_population_def list_all_length)
  from mutate_steps_rate1 [OF refl _ wfi, of 0 s]
  have g: "mutate_steps 1 0 (pop ! i) s = (g, sdrop (8 * NUM_STEPS) s)" "wf_genome g"
    by (simp_all add: g_def prod_eq_iff)
  have step: "mutatePopulation_loop 1 i pop s
      = mutatePopulation_loop 1 (i + 1) (pop[i := g]) (sdrop (8 * NUM_STEPS) s)"
    using i by (subst mutatePopulation_loop.simps) (simp add: g(1))
  have wf1: "wf_population (pop[i := g])"
    using Suc.prems(3) g(2) by (simp add: wf_population_def list_all_update)
  from Suc.IH [OF n _ wf1, of "sdrop (8 * NUM_STEPS) s"] i
  have ih: "wf_population r"
    "\<And>k. k < POP_SIZE \<Longrightarrow> r ! k
          = (if k < i + 1 then pop[i := g] ! k
             else fst (mutate_steps 1 0 (pop[i := g] ! k)
                    (sdrop (8 * NUM_STEPS * (k - (i + 1))) (sdrop (8 * NUM_STEPS) s))))"
    by (simp_all add: r_def)
  have "r ! k = (if k < i then pop ! k
             else fst (mutate_steps 1 0 (pop ! k) (sdrop (8 * NUM_STEPS * (k - i)) s)))"
    if k: "k < POP_SIZE" for k
  proof (cases "k < i" "k = i" rule: case_split [case_product case_split])
    case True_True
    then show ?thesis by simp
  next
    case True_False
    with ih(2) [OF k] show ?thesis by simp
  next
    case False_True
    with ih(2) [OF k] len show ?thesis by (simp add: g_def)
  next
    case False_False
    then have "k - i = Suc (k - (i + 1))" by arith
    then have "8 * NUM_STEPS + 8 * NUM_STEPS * (k - (i + 1)) = 8 * NUM_STEPS * (k - i)"
      by simp
    with False_False ih(2) [OF k] show ?thesis by simp
  qed
  with ih(1) show ?case unfolding step r_def [symmetric] by blast
qed

lemma example_drawn: "drawn (rng example_state) 0 0 1 = 13"
proof -
  have c: "cycle example_draws = example_draws @- cycle example_draws"
    by (rule cycle_decomp) (simp add: example_draws_def)
  have "cycle example_draws !! 1 = example_draws ! 1"
    by (subst c) (simp add: example_draws_def)
  then show ?thesis by (simp add: drawn_def example_state_def example_draws_def)
qed

subsection \<open>Mutation at every rate: one test for each field\<close>

lemma mutate_steps_fold:
  "n = NUM_STEPS - j \<Longrightarrow> j \<le> NUM_STEPS \<Longrightarrow>
     mutate_steps rate j g s
       = fold (\<lambda>j gs. mutate_step rate j (fst gs) (snd gs)) [j..<NUM_STEPS] (g, s)"
proof (induction n arbitrary: j g s)
  case 0
  then show ?case by (simp add: mutate_steps.simps)
next
  case (Suc n)
  then have j: "j < NUM_STEPS" and n: "n = NUM_STEPS - (j + 1)" by simp_all
  obtain g' s' where st: "mutate_step rate j g s = (g', s')" by (cases "mutate_step rate j g s")
  have "mutate_steps rate j g s = mutate_steps rate (j + 1) g' s'"
    using j st by (subst mutate_steps.simps) simp
  also have "\<dots> = fold (\<lambda>j gs. mutate_step rate j (fst gs) (snd gs)) [j + 1..<NUM_STEPS] (g', s')"
    using j by (intro Suc.IH [OF n]) simp
  also have "\<dots> = fold (\<lambda>j gs. mutate_step rate j (fst gs) (snd gs)) [j..<NUM_STEPS] (g, s)"
    using j st by (simp add: upt_conv_Cons)
  finally show ?case .
qed

lemma mutatePopulation_loop_fold:
  "n = POP_SIZE - i \<Longrightarrow> i \<le> POP_SIZE \<Longrightarrow>
     mutatePopulation_loop rate i pop s
       = fold (\<lambda>i ps. update_member i (fst ps) (mutate_steps rate 0 (fst ps ! i) (snd ps)))
           [i..<POP_SIZE] (pop, s)"
proof (induction n arbitrary: i pop s)
  case 0
  then show ?case by (simp add: mutatePopulation_loop.simps)
next
  case (Suc n)
  then have i: "i < POP_SIZE" and n: "n = POP_SIZE - (i + 1)" by simp_all
  obtain g s' where st: "mutate_steps rate 0 (pop ! i) s = (g, s')"
    by (cases "mutate_steps rate 0 (pop ! i) s")
  have "mutatePopulation_loop rate i pop s = mutatePopulation_loop rate (i + 1) (pop[i := g]) s'"
    using i st by (subst mutatePopulation_loop.simps) simp
  also have "\<dots> = fold (\<lambda>i ps. update_member i (fst ps) (mutate_steps rate 0 (fst ps ! i) (snd ps)))
           [i + 1..<POP_SIZE] (pop[i := g], s')"
    using i by (intro Suc.IH [OF n]) simp
  also have "\<dots> = fold (\<lambda>i ps. update_member i (fst ps) (mutate_steps rate 0 (fst ps ! i) (snd ps)))
           [i..<POP_SIZE] (pop, s)"
    using i st by (simp add: upt_conv_Cons update_member_def)
  finally show ?case .
qed

lemma spec_mutate_field_eq:
  "spec_mutate_field rate (i, j, Note) (pop, s) = update_member i pop (mutate_note rate j (pop ! i) s)"
  "spec_mutate_field rate (i, j, Octave) (pop, s) = update_member i pop (mutate_octave rate j (pop ! i) s)"
  "spec_mutate_field rate (i, j, Waveform) (pop, s) = update_member i pop (mutate_waveform rate j (pop ! i) s)"
  "spec_mutate_field rate (i, j, Gate) (pop, s) = update_member i pop (mutate_gate rate j (pop ! i) s)"
  by (simp_all add: spec_mutate_field_def update_member_def mutate_note_def mutate_octave_def
      mutate_waveform_def mutate_gate_def split_beta NUM_NOTES_def)

lemma update_member_again:
  "i < length pop \<Longrightarrow>
     update_member i (fst (update_member i pop gs)) (f (fst (update_member i pop gs) ! i) (snd (update_member i pop gs)))
       = update_member i pop (f (fst gs) (snd gs))"
  by (simp add: update_member_def)

lemma spec_mutate_step:
  assumes "i < length pop"
  shows "fold (\<lambda>f. spec_mutate_field rate (i, j, f)) [Note, Octave, Waveform, Gate] (pop, s)
           = update_member i pop (mutate_step rate j (pop ! i) s)"
proof -
  define a where "a = mutate_note rate j (pop ! i) s"
  define b where "b = mutate_octave rate j (fst a) (snd a)"
  define c where "c = mutate_waveform rate j (fst b) (snd b)"
  define d where "d = mutate_gate rate j (fst c) (snd c)"
  have m: "mutate_step rate j (pop ! i) s = d"
    by (simp add: mutate_step_def split_beta a_def b_def c_def d_def)
  have f: "spec_mutate_field rate (i, j, f) ps = spec_mutate_field rate (i, j, f) (fst ps, snd ps)"
    for f ps by simp
  have 1: "spec_mutate_field rate (i, j, Note) (pop, s) = update_member i pop a"
    by (simp add: spec_mutate_field_eq a_def)
  have 2: "spec_mutate_field rate (i, j, Octave) (update_member i pop a) = update_member i pop b"
    by (subst f, subst spec_mutate_field_eq)
      (use assms in \<open>simp add: update_member_def b_def\<close>)
  have 3: "spec_mutate_field rate (i, j, Waveform) (update_member i pop b) = update_member i pop c"
    by (subst f, subst spec_mutate_field_eq)
      (use assms in \<open>simp add: update_member_def c_def\<close>)
  have 4: "spec_mutate_field rate (i, j, Gate) (update_member i pop c) = update_member i pop d"
    by (subst f, subst spec_mutate_field_eq)
      (use assms in \<open>simp add: update_member_def d_def\<close>)
  show ?thesis unfolding m by (simp add: 1 2 3 4)
qed

lemma spec_mutate_steps:
  "i < length pop \<Longrightarrow>
     fold (\<lambda>j. fold (\<lambda>f. spec_mutate_field rate (i, j, f)) [Note, Octave, Waveform, Gate]) js
         (update_member i pop (g, s))
       = update_member i pop (fold (\<lambda>j gs. mutate_step rate j (fst gs) (snd gs)) js (g, s))"
proof (induction js arbitrary: g s)
  case Nil
  then show ?case by simp
next
  case (Cons j js)
  obtain g' s' where st: "mutate_step rate j g s = (g', s')" by (cases "mutate_step rate j g s")
  have len: "i < length (pop[i := g])" using Cons.prems by simp
  have "fold (\<lambda>f. spec_mutate_field rate (i, j, f)) [Note, Octave, Waveform, Gate]
          (update_member i pop (g, s)) = update_member i pop (g', s')"
    unfolding update_member_def fst_conv snd_conv
    using spec_mutate_step [OF len, of rate j s] Cons.prems
    by (simp add: update_member_def st)
  with Cons.IH [OF Cons.prems, of g' s'] st show ?case by simp
qed

lemma spec_mutate_member:
  assumes "i < length pop"
  shows "fold (\<lambda>j. fold (\<lambda>f. spec_mutate_field rate (i, j, f)) [Note, Octave, Waveform, Gate])
           [0..<NUM_STEPS] (pop, s)
         = update_member i pop (mutate_steps rate 0 (pop ! i) s)"
proof -
  have "(pop, s) = update_member i pop (pop ! i, s)"
    by (simp add: update_member_def)
  then have "fold (\<lambda>j. fold (\<lambda>f. spec_mutate_field rate (i, j, f)) [Note, Octave, Waveform, Gate])
           [0..<NUM_STEPS] (pop, s)
      = fold (\<lambda>j. fold (\<lambda>f. spec_mutate_field rate (i, j, f)) [Note, Octave, Waveform, Gate])
           [0..<NUM_STEPS] (update_member i pop (pop ! i, s))"
    by simp
  also have "\<dots> = update_member i pop
      (fold (\<lambda>j gs. mutate_step rate j (fst gs) (snd gs)) [0..<NUM_STEPS] (pop ! i, s))"
    by (rule spec_mutate_steps [OF assms])
  also have "\<dots> = update_member i pop (mutate_steps rate 0 (pop ! i) s)"
    using mutate_steps_fold [OF refl, of 0 rate "pop ! i" s] by simp
  finally show ?thesis .
qed

lemma spec_mutate_members:
  "length (fst ps) = POP_SIZE \<Longrightarrow> list_all (\<lambda>i. i < POP_SIZE) is \<Longrightarrow>
     fold (\<lambda>i. fold (\<lambda>j. fold (\<lambda>f. spec_mutate_field rate (i, j, f)) [Note, Octave, Waveform, Gate])
                  [0..<NUM_STEPS]) is ps
       = fold (\<lambda>i ps. update_member i (fst ps) (mutate_steps rate 0 (fst ps ! i) (snd ps))) is ps"
proof (induction "is" arbitrary: ps)
  case Nil
  then show ?case by simp
next
  case (Cons i "is")
  obtain pop s where ps: "ps = (pop, s)" by (cases ps)
  from Cons.prems ps have i: "i < length pop" by simp
  define ps' where "ps' = update_member i pop (mutate_steps rate 0 (pop ! i) s)"
  have len: "length (fst ps') = POP_SIZE"
    using Cons.prems(1) ps by (simp add: ps'_def update_member_def)
  from Cons.prems(2) have rest: "list_all (\<lambda>i. i < POP_SIZE) is" by simp
  define F where "F = (\<lambda>i. fold (\<lambda>j. fold (\<lambda>f. spec_mutate_field rate (i, j, f))
      [Note, Octave, Waveform, Gate]) [0..<NUM_STEPS])"
  define G where "G = (\<lambda>i ps. update_member i (fst ps) (mutate_steps rate 0 (fst ps ! i) (snd ps)))"
  have a: "F i ps = ps'"
    unfolding F_def ps ps'_def by (rule spec_mutate_member [OF i])
  have b: "G i ps = ps'"
    by (simp add: G_def ps ps'_def)
  have c: "fold F is ps' = fold G is ps'"
    unfolding F_def G_def by (rule Cons.IH [OF len rest])
  have "fold F (i # is) ps = fold G (i # is) ps"
    by (simp add: a b c)
  then show ?case unfolding F_def G_def .
qed

lemma fold_concat_map:
  "fold f (concat (map g xs)) = fold (\<lambda>x. fold f (g x)) xs"
  by (induction xs) simp_all

lemma spec_mutate_eq:
  assumes "length pop = POP_SIZE"
  shows "spec_mutate rate pop s = mutatePopulation_loop rate 0 pop s"
proof -
  have "spec_mutate rate pop s
      = fold (\<lambda>i. fold (\<lambda>j. fold (\<lambda>f. spec_mutate_field rate (i, j, f)) [Note, Octave, Waveform, Gate])
                  [0..<NUM_STEPS]) [0..<POP_SIZE] (pop, s)"
    unfolding spec_mutate_def spec_fields_def POP_SIZE_def NUM_STEPS_def
    by (simp only: fold_concat_map fold_map comp_def)
  also have "\<dots> = fold (\<lambda>i ps. update_member i (fst ps) (mutate_steps rate 0 (fst ps ! i) (snd ps)))
      [0..<POP_SIZE] (pop, s)"
    by (rule spec_mutate_members) (simp_all add: assms list_all_iff)
  also have "\<dots> = mutatePopulation_loop rate 0 pop s"
    using mutatePopulation_loop_fold [OF refl, of 0 rate pop s] by simp
  finally show ?thesis .
qed

lemma test_passes_count:
  assumes "k \<le> 100"
  shows "card {r. r < 100 \<and> real r < real k / 100 * 100} = k"
proof -
  have "{r. r < 100 \<and> real r < real k / 100 * 100} = {..<k}"
    using assms by auto
  then show ?thesis by simp
qed

lemma test_passes_MUT_RATE: "{r. r < 100 \<and> real r < MUT_RATE * 100} = {0}"
  by (auto simp: MUT_RATE_def)

lemma mutatePopulation_example:
  "mutatePopulation example_state
     = example_state\<lparr>population := replicate POP_SIZE example_mutated, rng := cycle example_draws\<rparr>"
  using mutatePopulation_loop_example [of POP_SIZE 0]
  by (simp add: mutatePopulation_def mutatePopulation_rate_def example_state_fields)

lemma mutate_fields_eq:
  "mutate_note rate j g s =
     (if real (shd s mod 100) < rate * 100
      then (g\<lparr>g_note := (g_note g)[j := of_nat (shd (stl s) mod 12)]\<rparr>, stl (stl s))
      else (g, stl s))"
  "mutate_octave rate j g s =
     (if real (shd s mod 100) < rate * 100
      then (g\<lparr>g_octave := (g_octave g)[j := of_nat (shd (stl s) mod 4)]\<rparr>, stl (stl s))
      else (g, stl s))"
  "mutate_waveform rate j g s =
     (if real (shd s mod 100) < rate * 100
      then (g\<lparr>g_waveform := (g_waveform g)[j := of_nat (shd (stl s) mod 4)]\<rparr>, stl (stl s))
      else (g, stl s))"
  "mutate_gate rate j g s =
     (if real (shd s mod 100) < rate * 100
      then (g\<lparr>g_gate := (g_gate g)[j := of_nat (shd (stl s) mod 2)]\<rparr>, stl (stl s))
      else (g, stl s))"
  by (simp_all add: mutate_note_def mutate_octave_def mutate_waveform_def mutate_gate_def
      random_def NUM_NOTES_def)

text \<open>
  C8. Each field of each step of each genome has a test of its own against the rate:
  the field is replaced when the output of \<open>random(100)\<close> taken for it is below
  \<open>rate * 100\<close>, by a further output of the generator reduced into the domain of the
  field (\<open>% 12\<close>, \<open>% 4\<close>, \<open>% 4\<close>, \<open>% 2\<close>), and it is left alone otherwise. For every
  rate \<open>mutatePopulation\<close> is \<open>spec_mutate\<close>, the per-field replacement of the
  specification run over the fields in the order of the loops, with the same generator
  left behind. Of the 100 values of \<open>random(100)\<close> exactly \<open>k\<close> pass the test at the rate
  \<open>k / 100\<close>, and only the value 0 at \<open>MUT_RATE\<close>. At the two ends of the rate: at rate 0
  no test passes and the population is left as it was, for every population and every
  generator; at rate 1 every test passes and every field of every step of every genome
  is replaced by an output of the generator of its own, whatever the field held before.
\<close>

theorem mutatePopulation_per_field_at_rate:
  "(wf_population (population st) \<longrightarrow>
      mutatePopulation_rate rate st
        = (case spec_mutate rate (population st) (rng st) of
             (pop, s') \<Rightarrow> st\<lparr>population := pop, rng := s'\<rparr>)) \<and>
   mutatePopulation st = mutatePopulation_rate MUT_RATE st \<and>
   mutate_note rate j g s =
     (if real (shd s mod 100) < rate * 100
      then (g\<lparr>g_note := (g_note g)[j := of_nat (shd (stl s) mod 12)]\<rparr>, stl (stl s))
      else (g, stl s)) \<and>
   mutate_octave rate j g s =
     (if real (shd s mod 100) < rate * 100
      then (g\<lparr>g_octave := (g_octave g)[j := of_nat (shd (stl s) mod 4)]\<rparr>, stl (stl s))
      else (g, stl s)) \<and>
   mutate_waveform rate j g s =
     (if real (shd s mod 100) < rate * 100
      then (g\<lparr>g_waveform := (g_waveform g)[j := of_nat (shd (stl s) mod 4)]\<rparr>, stl (stl s))
      else (g, stl s)) \<and>
   mutate_gate rate j g s =
     (if real (shd s mod 100) < rate * 100
      then (g\<lparr>g_gate := (g_gate g)[j := of_nat (shd (stl s) mod 2)]\<rparr>, stl (stl s))
      else (g, stl s)) \<and>
   {r. r < 100 \<and> real r < MUT_RATE * 100} = {0} \<and>
   (k \<le> 100 \<longrightarrow> card {r. r < 100 \<and> real r < real k / 100 * 100} = k) \<and>
   population (mutatePopulation_rate 0 st) = population st \<and>
   (wf_population (population st) \<longrightarrow>
      wf_population (population (mutatePopulation_rate 1 st)) \<and>
      (\<forall>i<POP_SIZE. \<forall>j<NUM_STEPS.
         g_note (population (mutatePopulation_rate 1 st) ! i) ! j
           = of_nat (drawn (rng st) i j 1 mod 12) \<and>
         g_octave (population (mutatePopulation_rate 1 st) ! i) ! j
           = of_nat (drawn (rng st) i j 3 mod 4) \<and>
         g_waveform (population (mutatePopulation_rate 1 st) ! i) ! j
           = of_nat (drawn (rng st) i j 5 mod 4) \<and>
         g_gate (population (mutatePopulation_rate 1 st) ! i) ! j
           = of_nat (drawn (rng st) i j 7 mod 2)))"
proof (intro conjI impI allI)
  assume wf: "wf_population (population st)"
  then have "length (population st) = POP_SIZE" by (simp add: wf_population_def)
  from spec_mutate_eq [OF this, of rate "rng st"]
  show "mutatePopulation_rate rate st
        = (case spec_mutate rate (population st) (rng st) of
             (pop, s') \<Rightarrow> st\<lparr>population := pop, rng := s'\<rparr>)"
    by (simp add: mutatePopulation_rate_def)
next
  show "mutatePopulation st = mutatePopulation_rate MUT_RATE st"
    by (simp add: mutatePopulation_def)
next
  show "mutate_note rate j g s =
     (if real (shd s mod 100) < rate * 100
      then (g\<lparr>g_note := (g_note g)[j := of_nat (shd (stl s) mod 12)]\<rparr>, stl (stl s))
      else (g, stl s))"
    by (rule mutate_fields_eq)
next
  show "mutate_octave rate j g s =
     (if real (shd s mod 100) < rate * 100
      then (g\<lparr>g_octave := (g_octave g)[j := of_nat (shd (stl s) mod 4)]\<rparr>, stl (stl s))
      else (g, stl s))"
    by (rule mutate_fields_eq)
next
  show "mutate_waveform rate j g s =
     (if real (shd s mod 100) < rate * 100
      then (g\<lparr>g_waveform := (g_waveform g)[j := of_nat (shd (stl s) mod 4)]\<rparr>, stl (stl s))
      else (g, stl s))"
    by (rule mutate_fields_eq)
next
  show "mutate_gate rate j g s =
     (if real (shd s mod 100) < rate * 100
      then (g\<lparr>g_gate := (g_gate g)[j := of_nat (shd (stl s) mod 2)]\<rparr>, stl (stl s))
      else (g, stl s))"
    by (rule mutate_fields_eq)
next
  show "{r. r < 100 \<and> real r < MUT_RATE * 100} = {0}"
    by (rule test_passes_MUT_RATE)
next
  assume "k \<le> 100"
  then show "card {r. r < 100 \<and> real r < real k / 100 * 100} = k"
    by (rule test_passes_count)
next
  show "population (mutatePopulation_rate 0 st) = population st"
    using mutatePopulation_loop_rate0 [of POP_SIZE 0 "population st" "rng st"]
    by (simp add: mutatePopulation_rate_def split_beta)
next
  assume wf: "wf_population (population st)"
  define r where "r = fst (mutatePopulation_loop 1 0 (population st) (rng st))"
  have p: "population (mutatePopulation_rate 1 st) = r"
    by (simp add: mutatePopulation_rate_def split_beta r_def)
  from mutatePopulation_loop_rate1 [OF refl _ wf, of 0 "rng st"]
  have r: "wf_population r"
    "\<And>i. i < POP_SIZE \<Longrightarrow>
       r ! i = fst (mutate_steps 1 0 (population st ! i) (sdrop (8 * NUM_STEPS * i) (rng st)))"
    by (simp_all add: r_def)
  show "wf_population (population (mutatePopulation_rate 1 st))"
    using r(1) p by simp
  fix i j
  assume i: "i < POP_SIZE" and j: "j < NUM_STEPS"
  have wfi: "wf_genome (population st ! i)"
    using wf i by (simp add: wf_population_def list_all_length)
  have pos: "8 * NUM_STEPS * i + (8 * j + k) = 8 * (NUM_STEPS * i + j) + k" for k
    by (simp add: algebra_simps)
  have q: "sdrop (8 * NUM_STEPS * i) (rng st) !! (8 * (j - 0) + k) = drawn (rng st) i j k" for k
    by (simp only: drawn_def sdrop_snth pos diff_zero)
  from mutate_steps_rate1 [OF refl _ wfi, of 0 "sdrop (8 * NUM_STEPS * i) (rng st)"] j
  have m: "g_note (r ! i) ! j
      = of_nat (sdrop (8 * NUM_STEPS * i) (rng st) !! (8 * (j - 0) + 1) mod 12)"
    "g_octave (r ! i) ! j
      = of_nat (sdrop (8 * NUM_STEPS * i) (rng st) !! (8 * (j - 0) + 3) mod 4)"
    "g_waveform (r ! i) ! j
      = of_nat (sdrop (8 * NUM_STEPS * i) (rng st) !! (8 * (j - 0) + 5) mod 4)"
    "g_gate (r ! i) ! j
      = of_nat (sdrop (8 * NUM_STEPS * i) (rng st) !! (8 * (j - 0) + 7) mod 2)"
    unfolding r(2) [OF i] by simp_all
  show "g_note (population (mutatePopulation_rate 1 st) ! i) ! j
           = of_nat (drawn (rng st) i j 1 mod 12)"
    and "g_octave (population (mutatePopulation_rate 1 st) ! i) ! j
           = of_nat (drawn (rng st) i j 3 mod 4)"
    and "g_waveform (population (mutatePopulation_rate 1 st) ! i) ! j
           = of_nat (drawn (rng st) i j 5 mod 4)"
    and "g_gate (population (mutatePopulation_rate 1 st) ! i) ! j
           = of_nat (drawn (rng st) i j 7 mod 2)"
    unfolding p using m by (simp_all only: q)
qed

theorem mutatePopulation_per_field_at_rate_witness:
  "wf_population (population example_state) \<and>
   fst (spec_mutate MUT_RATE (population example_state) (rng example_state))
     = replicate POP_SIZE example_mutated \<and>
   population (mutatePopulation example_state) = replicate POP_SIZE example_mutated \<and>
   population (mutatePopulation example_state) \<noteq> population example_state \<and>
   (50 :: nat) \<le> 100 \<and>
   card {r. r < 100 \<and> real r < real (50 :: nat) / 100 * 100} = 50 \<and>
   population (mutatePopulation_rate 0 example_state) = population example_state \<and>
   (0::nat) < POP_SIZE \<and> (0::nat) < NUM_STEPS \<and>
   g_note (population (mutatePopulation_rate 1 example_state) ! 0) ! 0 = 1"
proof -
  have i: "(0::nat) < POP_SIZE" "(0::nat) < NUM_STEPS"
    by (simp_all add: POP_SIZE_def NUM_STEPS_def)
  have l: "(50 :: nat) \<le> 100" by simp
  note m = mutatePopulation_per_field_at_rate [of example_state MUT_RATE _ _ _ 50]
  from m example_state_wf(1)
  have a: "mutatePopulation_rate MUT_RATE example_state
        = (case spec_mutate MUT_RATE (population example_state) (rng example_state) of
             (pop, s') \<Rightarrow> example_state\<lparr>population := pop, rng := s'\<rparr>)"
    by blast
  have b: "population (mutatePopulation example_state) = replicate POP_SIZE example_mutated"
    by (simp add: mutatePopulation_example)
  then have c: "fst (spec_mutate MUT_RATE (population example_state) (rng example_state))
     = replicate POP_SIZE example_mutated"
    unfolding mutatePopulation_def a by (simp add: split_beta)
  have "example_mutated \<noteq> example_roots" by code_simp
  then have d: "population (mutatePopulation example_state) \<noteq> population example_state"
    unfolding b by (simp add: example_state_fields POP_SIZE_def)
  from m l have e: "card {r. r < 100 \<and> real r < real (50 :: nat) / 100 * 100} = 50"
    by blast
  from m example_state_wf(1) i
  have "population (mutatePopulation_rate 0 example_state) = population example_state"
    and "g_note (population (mutatePopulation_rate 1 example_state) ! 0) ! 0
           = of_nat (drawn (rng example_state) 0 0 1 mod 12)"
    by blast+
  then have f: "population (mutatePopulation_rate 0 example_state) = population example_state"
    "g_note (population (mutatePopulation_rate 1 example_state) ! 0) ! 0 = 1"
    unfolding example_drawn by simp_all
  from example_state_wf(1) c b d l e f i show ?thesis by blast
qed

subsection \<open>The score and the reference sum\<close>

text \<open>
  Apart from the element type of the table and the reads beyond the end of a row,
  \<open>evaluateGenome\<close> is the reference sum: a lookup of \<open>evaluateGenome\<close> leaves its row
  exactly when the reference sum has no cell for the step, and for a genome whose
  lookups all stay in their rows \<open>evaluateGenome\<close> returns the reference sum plus 256 for
  each step whose cell is negative. They agree on the genomes that meet no negative
  cell and leave no row.
\<close>

lemma unat_scale_degree: "unat (word_of_int (x mod 12) :: byte) = nat (x mod 12)"
proof -
  have "0 \<le> x mod 12" "x mod 12 < 12" by simp_all
  then have l: "nat (x mod 12) < 256" by linarith
  have "word_of_int (x mod 12) = (of_nat (nat (x mod 12)) :: byte)"
    by (rule word_of_int_nat) simp
  then have "unat (word_of_int (x mod 12) :: byte) = unat (of_nat (nat (x mod 12)) :: byte)"
    by (simp only:)
  also have "\<dots> = nat (x mod 12) mod 2 ^ LENGTH(8)"
    by (rule unat_of_nat)
  also have "\<dots> = nat (x mod 12)"
    using l by simp
  finally show ?thesis .
qed

lemma table_cells:
  assumes "ct < 3" "sd < 7"
  shows "uint (JAZZ_TABLE_read ct sd)
       = spec_table ! ct ! sd + (if spec_table ! ct ! sd < 0 then 256 else 0)"
    and "JAZZ_TABLE_read ct sd = JAZZ_TABLE ! ct ! sd"
proof -
  from assms have "ct \<in> {0, 1, 2}" "sd \<in> {0, 1, 2, 3, 4, 5, 6}" by auto
  then show "uint (JAZZ_TABLE_read ct sd)
       = spec_table ! ct ! sd + (if spec_table ! ct ! sd < 0 then 256 else 0)"
    and "JAZZ_TABLE_read ct sd = JAZZ_TABLE ! ct ! sd"
    by (auto simp: JAZZ_TABLE_read_def JAZZ_TABLE_def spec_table_def)
qed

lemma progression:
  assumes "q < 4"
  shows "spec_progression ! q = (unat (CHORD_PROGRESSION ! q ! 0), uint (CHORD_PROGRESSION ! q ! 1))"
    and "unat (CHORD_PROGRESSION ! q ! 0) < 3"
proof -
  from assms have "q \<in> {0, 1, 2, 3}" by auto
  then show "spec_progression ! q = (unat (CHORD_PROGRESSION ! q ! 0), uint (CHORD_PROGRESSION ! q ! 1))"
    and "unat (CHORD_PROGRESSION ! q ! 0) < 3"
    by (auto simp: spec_progression_def CHORD_PROGRESSION_def)
qed

lemma table_index_spec:
  assumes "i < NUM_STEPS"
  shows "fst (table_index g i) < 3"
    and "snd (table_index g i) < 12"
    and "spec_cell g i = spec_table_at (fst (table_index g i)) (snd (table_index g i))"
proof -
  define q where "q = i div 16"
  have q: "q < 4" using assms(1) by (simp add: q_def NUM_STEPS_def)
  define rt where "rt = CHORD_PROGRESSION ! q ! 1"
  define sd where "sd = nat ((uint (g_note g ! i) - uint rt + 12) mod 12)"
  note p = progression [OF q]
  have j: "unat (word_of_int ((uint (g_note g ! i) - uint rt + 12) mod 12) :: byte) = sd"
    using unat_scale_degree [of "uint (g_note g ! i) - uint rt + 12"]
    by (simp add: sd_def)
  have d: "i div (NUM_STEPS div 4) = q" by (simp add: q_def NUM_STEPS_def)
  have t: "table_index g i = (unat (CHORD_PROGRESSION ! q ! 0), sd)"
    unfolding table_index_def Let_def d NUM_NOTES_def rt_def [symmetric]
    using j by simp
  show "fst (table_index g i) < 3" using p(2) by (simp add: t)
  have "(uint (g_note g ! i) - uint rt + 12) mod 12 < 12" by simp
  then show "snd (table_index g i) < 12" unfolding t sd_def by simp
  show "spec_cell g i = spec_table_at (fst (table_index g i)) (snd (table_index g i))"
    using p(1) by (simp add: t spec_cell_def spec_progression_def sd_def rt_def q_def [symmetric])
qed

lemma lookup_checked_defined:
  assumes "i < NUM_STEPS"
  shows "lookup_checked g i = None \<longleftrightarrow> spec_cell g i = None"
    and "lookup_checked g i = None \<longleftrightarrow> 7 \<le> snd (table_index g i)"
  using table_index_spec(1) [OF assms, of g]
  by (simp_all add: lookup_checked_def table_index_spec(3) [OF assms] split_beta
      JAZZ_TABLE_at_def spec_table_at_def not_less)

lemma JAZZ_TABLE_read_in_table:
  assumes "i < NUM_STEPS"
  shows "fst (table_index g i) * 7 + snd (table_index g i) < length (concat JAZZ_TABLE)"
proof -
  from table_index_spec(1,2) [OF assms, of g]
  have "fst (table_index g i) * 7 + snd (table_index g i) < 49" by simp
  then show ?thesis by (simp add: JAZZ_TABLE_def)
qed

lemma score_step_spec:
  assumes "i < NUM_STEPS" and "spec_step g i = Some c"
  shows "score_step g i acc = acc + c + (if negative_cell g i then 256 else 0)"
proof -
  from assms(2) obtain t where t: "spec_cell g i = Some t"
    by (auto simp: spec_step_def Let_def split: option.splits)
  note x = table_index_spec [OF assms(1), of g]
  from t x(3) have sd: "snd (table_index g i) < 7" and
    tt: "t = spec_table ! fst (table_index g i) ! snd (table_index g i)"
    by (auto simp: spec_table_at_def split: if_splits)
  from table_cells(1) [OF x(1) sd] tt
  have u: "uint (JAZZ_TABLE_read (fst (table_index g i)) (snd (table_index g i)))
      = t + (if t < 0 then 256 else 0)"
    by simp
  from assms(2) show ?thesis
    unfolding score_step_eq u
    by (auto simp: spec_step_def Let_def t negative_cell_def algebra_simps)
qed

lemma evaluateGenome_loop_spec:
  "n = NUM_STEPS - i \<Longrightarrow> i \<le> NUM_STEPS \<Longrightarrow> spec_sum g [i..<NUM_STEPS] = Some s \<Longrightarrow>
     evaluateGenome_loop g i acc
       = acc + s + 256 * int (length (filter (negative_cell g) [i..<NUM_STEPS]))"
proof (induction n arbitrary: i acc s)
  case 0
  then show ?case by (simp add: evaluateGenome_loop.simps)
next
  case (Suc n)
  then have i: "i < NUM_STEPS" and n: "n = NUM_STEPS - (i + 1)" by simp_all
  have u: "[i..<NUM_STEPS] = i # [i + 1..<NUM_STEPS]"
    using i by (simp add: upt_conv_Cons)
  from Suc.prems(3) obtain c r where c: "spec_step g i = Some c"
    and r: "spec_sum g [i + 1..<NUM_STEPS] = Some r" and s: "s = c + r"
    unfolding u by (auto split: option.splits)
  have j: "i + 1 \<le> NUM_STEPS" using i by simp
  have "evaluateGenome_loop g i acc = evaluateGenome_loop g (i + 1) (score_step g i acc)"
    using i by (subst evaluateGenome_loop.simps) simp
  also have "\<dots> = score_step g i acc + r
      + 256 * int (length (filter (negative_cell g) [i + 1..<NUM_STEPS]))"
    by (rule Suc.IH [OF n j r])
  also have "\<dots> = acc + s + 256 * int (length (filter (negative_cell g) [i..<NUM_STEPS]))"
    unfolding score_step_spec [OF i c] u s by simp
  finally show ?case .
qed

lemma evaluateGenome_spec:
  assumes "spec_score g = Some s"
  shows "evaluateGenome g = s + 256 * int (length (filter (negative_cell g) [0..<64]))"
  using evaluateGenome_loop_spec [of NUM_STEPS 0 g s 0] assms
  unfolding evaluateGenome_def spec_score_def NUM_STEPS_def
  by simp

lemma evaluateGenome_spec_nonnegative:
  assumes "spec_score g = Some s" and "\<forall>i<64. \<not> negative_cell g i"
  shows "evaluateGenome g = s"
proof -
  from assms(2) have "filter (negative_cell g) [0..<64] = []"
    by (simp add: filter_empty_conv)
  with evaluateGenome_spec [OF assms(1)] show ?thesis by simp
qed

end
